theory Spec2Isabelle
  imports Complex_Main
begin

section \<open>Strings and numbers of the host language\<close>

text \<open>
  The plugin is TypeScript. A string is a sequence of UTF-16 code units, and \<open>length\<close>,
  \<open>slice\<close> and the regular-expression engine (no \<open>u\<close> flag is used anywhere in the
  source) all count and compare code units. A string is therefore a list of code units,
  each a natural number; \<open>asc\<close> embeds an ASCII literal.
\<close>

type_synonym jstring = "nat list"

definition asc :: "string \<Rightarrow> jstring" where
  "asc s = map of_char s"

text \<open>
  Numbers are IEEE doubles. Every natural number below \<open>2^53\<close> is a double, and a
  template literal prints such a number in plain decimal, which is what \<open>showNat\<close>
  does. Every number the handler prints is a natural number (a counter that starts at 0
  and grows by 1, a field declared \<open>Schema.natural()\<close>, or a count of hours or minutes
  computed from such a field); \<open>showNat\<close> is its text as long as it is below \<open>2^53\<close>.
\<close>

function showNat :: "nat \<Rightarrow> jstring" where
  "showNat n = (if n < 10 then [48 + n] else showNat (n div 10) @ [48 + n mod 10])"
  by pat_completeness auto
termination
  by (relation "measure id") auto

declare showNat.simps [simp del]

section \<open>Regular expressions of the host language\<close>

text \<open>
  The handler builds one regular expression per rule from the rule's key
  (\<^verbatim>\<open>new RegExp(..., 'gis')\<close>) and uses two regular-expression literals. What such an
  object does is fixed by the language standard; the part of it that the handler can
  reach is embedded here: the pattern syntax as a datatype, the backtracking matcher as
  the list of its results in priority order (the first element is the match the engine
  reports), and below the parser of pattern sources and the string methods \<open>test\<close>,
  \<open>replace\<close> and \<open>split\<close>.
\<close>

datatype cclass = Digit | Word | Space

datatype citem = Single nat | Range nat nat

datatype direction = Forward | Backward

datatype regex =
    Eps
  | Chr nat
  | Dot
  | Esc cclass bool
  | CharSet "citem list" bool
  | Seq regex regex
  | Alt regex regex
  | Star regex bool
  | Plus regex bool
  | Opt regex bool
  | Grp nat regex
  | Look direction bool regex
  | Bos
  | Eos

text \<open>
  \<open>Esc k neg\<close> is a class escape (\<^verbatim>\<open>\d \w \s\<close>, negated \<^verbatim>\<open>\D \W \S\<close>), \<open>CharSet items neg\<close> a
  bracket class, the flag of a quantifier says whether it is greedy, \<open>Grp k r\<close> is the
  \<open>k\<close>-th capturing group, \<open>Look d negative r\<close> a look-ahead (\<open>Forward\<close>) or look-behind
  (\<open>Backward\<close>), \<open>Bos\<close> and \<open>Eos\<close> are \<^verbatim>\<open>^\<close> and \<^verbatim>\<open>$\<close> without the \<open>m\<close> flag.

  A match state is the end index reached and the captures made so far.
\<close>

type_synonym caps = "nat \<Rightarrow> (nat \<times> nat) option"

type_synonym mstate = "nat \<times> caps"

text \<open>
  The matcher's context: the flags \<open>i\<close> and \<open>s\<close>, the input, and the one table of the
  runtime that the source does not contain: \<open>upper c\<close> is the upper-case form of a
  non-ASCII code unit \<open>c\<close> when that form is a single code unit. Every result below holds for
  any such table.
\<close>

record mctx =
  upper :: "nat \<Rightarrow> nat option"
  ignoreCase :: bool
  dotAll :: bool
  input :: jstring

definition asciiUpper :: "nat \<Rightarrow> nat" where
  "asciiUpper ch = (if 97 \<le> ch \<and> ch \<le> 122 then ch - 32 else ch)"

definition canonicalize :: "mctx \<Rightarrow> nat \<Rightarrow> nat" where
  "canonicalize cx ch =
     (if \<not> ignoreCase cx then ch
      else if ch < 128 then asciiUpper ch
      else (case upper cx ch of
              None \<Rightarrow> ch
            | Some cu \<Rightarrow> if cu < 128 then ch else cu))"

definition lineTerminators :: "nat list" where
  "lineTerminators = [0x0A, 0x0D, 0x2028, 0x2029]"

definition whiteSpace :: "nat list" where
  "whiteSpace = [0x09, 0x0B, 0x0C, 0x20, 0xA0, 0x1680, 0x2000, 0x2001, 0x2002, 0x2003, 0x2004,
     0x2005, 0x2006, 0x2007, 0x2008, 0x2009, 0x200A, 0x202F, 0x205F, 0x3000, 0xFEFF]"

text \<open>
  The class escapes are tested by membership: none of the three classes contains a
  character whose canonical form lies outside the class, so the canonical comparison of
  the standard selects the same characters.
\<close>

fun inClass :: "cclass \<Rightarrow> nat \<Rightarrow> bool" where
  "inClass Digit ch = (48 \<le> ch \<and> ch \<le> 57)"
| "inClass Word ch =
     ((97 \<le> ch \<and> ch \<le> 122) \<or> (65 \<le> ch \<and> ch \<le> 90) \<or> (48 \<le> ch \<and> ch \<le> 57) \<or> ch = 95)"
| "inClass Space ch = (ch \<in> set whiteSpace \<or> ch \<in> set lineTerminators)"

fun itemMatch :: "mctx \<Rightarrow> nat \<Rightarrow> citem \<Rightarrow> bool" where
  "itemMatch cx ch (Single a) = (canonicalize cx a = canonicalize cx ch)"
| "itemMatch cx ch (Range lo hi) =
     (if ignoreCase cx then list_ex (\<lambda>a. canonicalize cx a = canonicalize cx ch) [lo..<Suc hi]
      else lo \<le> ch \<and> ch \<le> hi)"

text \<open>One character, read to the right of the index or, in a look-behind, to its left.\<close>

fun charStep :: "mctx \<Rightarrow> direction \<Rightarrow> (nat \<Rightarrow> bool) \<Rightarrow> mstate \<Rightarrow> mstate list" where
  "charStep cx Forward accepts (e, cap) =
     (if e < length (input cx) \<and> accepts (input cx ! e) then [(e + 1, cap)] else [])"
| "charStep cx Backward accepts (e, cap) =
     (if 0 < e \<and> e - 1 < length (input cx) \<and> accepts (input cx ! (e - 1))
      then [(e - 1, cap)] else [])"

fun groupsOf :: "regex \<Rightarrow> nat list" where
  "groupsOf (Seq r s) = groupsOf r @ groupsOf s"
| "groupsOf (Alt r s) = groupsOf r @ groupsOf s"
| "groupsOf (Star r g) = groupsOf r"
| "groupsOf (Plus r g) = groupsOf r"
| "groupsOf (Opt r g) = groupsOf r"
| "groupsOf (Grp k r) = k # groupsOf r"
| "groupsOf (Look d n r) = groupsOf r"
| "groupsOf r = []"

definition clearCaps :: "nat list \<Rightarrow> caps \<Rightarrow> caps" where
  "clearCaps ks cap = (\<lambda>k. if k \<in> set ks then None else cap k)"

fun advances :: "mctx \<Rightarrow> direction \<Rightarrow> nat \<Rightarrow> nat \<Rightarrow> bool" where
  "advances cx Forward e e' = (e < e' \<and> e' \<le> length (input cx))"
| "advances cx Backward e e' = (e' < e)"

fun rsize :: "regex \<Rightarrow> nat" where
  "rsize (Seq r s) = Suc (rsize r + rsize s)"
| "rsize (Alt r s) = Suc (rsize r + rsize s)"
| "rsize (Star r g) = Suc (rsize r)"
| "rsize (Plus r g) = Suc (Suc (rsize r))"
| "rsize (Opt r g) = Suc (rsize r)"
| "rsize (Grp k r) = Suc (rsize r)"
| "rsize (Look d n r) = Suc (rsize r)"
| "rsize r = 0"

fun togo :: "mctx \<Rightarrow> direction \<Rightarrow> nat \<Rightarrow> nat" where
  "togo cx Forward e = length (input cx) - e"
| "togo cx Backward e = e"

fun span :: "direction \<Rightarrow> nat \<Rightarrow> nat \<Rightarrow> nat \<times> nat" where
  "span Forward e e' = (e, e')"
| "span Backward e e' = (e', e)"

text \<open>
  The matcher. A sequence is matched left to right, or right to left inside a
  look-behind; a quantifier clears the captures of its body before every iteration and
  rejects an iteration that consumed nothing; the greedy form tries one more iteration
  before it tries to stop, the lazy form the other way round. In the equation for
  \<open>Star\<close> the test \<open>advances\<close> bounds the recursion; by \<open>run_reaches\<close> below it holds for
  every result that moved at all, so it rejects nothing.
\<close>

function run :: "mctx \<Rightarrow> direction \<Rightarrow> regex \<Rightarrow> mstate \<Rightarrow> mstate list" where
  "run cx d Eps (e, cap) = [(e, cap)]"
| "run cx d (Chr c) (e, cap) =
     charStep cx d (\<lambda>ch. canonicalize cx ch = canonicalize cx c) (e, cap)"
| "run cx d Dot (e, cap) =
     charStep cx d (\<lambda>ch. dotAll cx \<or> ch \<notin> set lineTerminators) (e, cap)"
| "run cx d (Esc k neg) (e, cap) = charStep cx d (\<lambda>ch. inClass k ch \<noteq> neg) (e, cap)"
| "run cx d (CharSet items neg) (e, cap) =
     charStep cx d (\<lambda>ch. list_ex (itemMatch cx ch) items \<noteq> neg) (e, cap)"
| "run cx Forward (Seq r s) (e, cap) =
     concat (map (run cx Forward s) (run cx Forward r (e, cap)))"
| "run cx Backward (Seq r s) (e, cap) =
     concat (map (run cx Backward r) (run cx Backward s (e, cap)))"
| "run cx d (Alt r s) (e, cap) = run cx d r (e, cap) @ run cx d s (e, cap)"
| "run cx d (Star r greedy) (e, cap) =
     (let again =
        concat (map (\<lambda>(e', cap').
                       if e' = e then []
                       else if advances cx d e e' then run cx d (Star r greedy) (e', cap')
                       else [])
                    (run cx d r (e, clearCaps (groupsOf r) cap)))
      in if greedy then again @ [(e, cap)] else (e, cap) # again)"
| "run cx d (Plus r greedy) (e, cap) =
     concat (map (run cx d (Star r greedy)) (run cx d r (e, clearCaps (groupsOf r) cap)))"
| "run cx d (Opt r greedy) (e, cap) =
     (let once = filter (\<lambda>(e', cap'). e' \<noteq> e) (run cx d r (e, clearCaps (groupsOf r) cap))
      in if greedy then once @ [(e, cap)] else (e, cap) # once)"
| "run cx d (Grp k r) (e, cap) =
     map (\<lambda>(e', cap'). (e', cap'(k \<mapsto> span d e e'))) (run cx d r (e, cap))"
| "run cx d (Look d' negative r) (e, cap) =
     (case run cx d' r (e, cap) of
        [] \<Rightarrow> if negative then [(e, cap)] else []
      | (e', cap') # ys \<Rightarrow> if negative then [] else [(e, cap')])"
| "run cx d Bos (e, cap) = (if e = 0 then [(e, cap)] else [])"
| "run cx d Eos (e, cap) = (if e = length (input cx) then [(e, cap)] else [])"
  by pat_completeness auto
termination
  by (relation "measures [\<lambda>(cx, d, r, x). rsize r, \<lambda>(cx, d, r, x). togo cx d (fst x)]")
     (auto elim: advances.elims)

declare run.simps [simp del]

text \<open>Every result lies on the side of the start index that the direction reads.\<close>

fun reaches :: "mctx \<Rightarrow> direction \<Rightarrow> nat \<Rightarrow> nat \<Rightarrow> bool" where
  "reaches cx Forward e e' = (e \<le> e' \<and> (length (input cx) < e \<or> e' \<le> length (input cx)))"
| "reaches cx Backward e e' = (e' \<le> e)"

lemma reaches_refl: "reaches cx d e e"
  by (cases d) auto

lemma reaches_trans: "reaches cx d e e' \<Longrightarrow> reaches cx d e' e'' \<Longrightarrow> reaches cx d e e''"
  by (cases d) auto

lemma charStep_reaches: "(e', cap') \<in> set (charStep cx d p (e, cap)) \<Longrightarrow> reaches cx d e e'"
  by (cases d) (auto split: if_splits)

lemma run_reaches: "(e', cap') \<in> set (run cx d r x) \<Longrightarrow> reaches cx d (fst x) e'"
proof (induction cx d r x arbitrary: e' cap' rule: run.induct)
  case (1 cx d e cap)
  then show ?case by (simp add: run.simps reaches_refl)
next
  case (2 cx d c e cap)
  then show ?case by (simp add: run.simps charStep_reaches)
next
  case (3 cx d e cap)
  then show ?case by (simp add: run.simps charStep_reaches)
next
  case (4 cx d k neg e cap)
  then show ?case by (simp add: run.simps charStep_reaches)
next
  case (5 cx d items neg e cap)
  then show ?case by (simp add: run.simps charStep_reaches)
next
  case (6 cx r s e cap)
  from 6(3) obtain z where z: "z \<in> set (run cx Forward r (e, cap))"
      "(e', cap') \<in> set (run cx Forward s z)"
    by (auto simp: run.simps(6))
  obtain ez cz where zz: "z = (ez, cz)" by (cases z)
  from 6(1)[of ez cz] 6(2)[OF z] z(1) zz show ?case
    by (auto intro: reaches_trans)
next
  case (7 cx r s e cap)
  from 7(3) obtain z where z: "z \<in> set (run cx Backward s (e, cap))"
      "(e', cap') \<in> set (run cx Backward r z)"
    by (auto simp: run.simps(7))
  obtain ez cz where zz: "z = (ez, cz)" by (cases z)
  from 7(1)[of ez cz] 7(2)[OF z] z(1) zz show ?case
    by (auto intro: reaches_trans)
next
  case (8 cx d r s e cap)
  from 8(3) have "(e', cap') \<in> set (run cx d r (e, cap)) \<or> (e', cap') \<in> set (run cx d s (e, cap))"
    by (simp add: run.simps(8))
  then show ?case using 8(1,2) by blast
next
  case (9 cx d r greedy e cap)
  let ?xr = "(e, clearCaps (groupsOf r) cap)"
  from 9(3) consider "e' = e"
    | ez cz where "(ez, cz) \<in> set (run cx d r ?xr)" "ez \<noteq> e" "advances cx d e ez"
        "(e', cap') \<in> set (run cx d (Star r greedy) (ez, cz))"
    by (subst (asm) run.simps(9)) (auto simp: Let_def split: if_splits)
  then show ?case
  proof cases
    case 1
    then show ?thesis by (simp add: reaches_refl)
  next
    case 2
    have "reaches cx d e ez" using 9(1)[OF 2(1)] by simp
    moreover have "reaches cx d ez e'" using 9(2)[OF 2(1) refl 2(2,3,4)] by simp
    ultimately show ?thesis by (auto intro: reaches_trans)
  qed
next
  case (10 cx d r greedy e cap)
  let ?xr = "(e, clearCaps (groupsOf r) cap)"
  from 10(3) obtain z where z: "z \<in> set (run cx d r ?xr)"
      "(e', cap') \<in> set (run cx d (Star r greedy) z)"
    by (auto simp: run.simps(10))
  obtain ez cz where zz: "z = (ez, cz)" by (cases z)
  from 10(1)[of ez cz] 10(2)[OF z] z(1) zz show ?case
    by (auto intro: reaches_trans)
next
  case (11 cx d r greedy e cap)
  from 11(2) consider "e' = e" | "(e', cap') \<in> set (run cx d r (e, clearCaps (groupsOf r) cap))"
    by (auto simp: run.simps(11) Let_def split: if_splits)
  then show ?case using 11(1) by cases (auto simp: reaches_refl)
next
  case (12 cx d k r e cap)
  from 12(2) obtain cz where "(e', cz) \<in> set (run cx d r (e, cap))"
    by (auto simp: run.simps(12))
  from 12(1)[OF this] show ?case .
next
  case (13 cx d d' negative r e cap)
  from 13(2) have "e' = e"
    by (auto simp: run.simps(13) split: list.splits if_splits)
  then show ?case by (simp add: reaches_refl)
next
  case (14 cx d e cap)
  then show ?case by (auto simp: run.simps reaches_refl split: if_splits)
next
  case (15 cx d e cap)
  then show ?case by (auto simp: run.simps reaches_refl split: if_splits)
qed

lemma run_forward:
  "(e', cap') \<in> set (run cx Forward r (e, cap)) \<Longrightarrow> e \<le> length (input cx) \<Longrightarrow>
     e \<le> e' \<and> e' \<le> length (input cx)"
  using run_reaches[of e' cap' cx Forward r "(e, cap)"] by auto

lemma star_guard_redundant:
  "(e', cap') \<in> set (run cx d r (e, cap)) \<Longrightarrow> e \<le> length (input cx) \<Longrightarrow> e' \<noteq> e \<Longrightarrow>
     advances cx d e e'"
  using run_reaches[of e' cap' cx d r "(e, cap)"] by (cases d) auto

text \<open>
  \<open>exec\<close> on a regular expression with the \<open>g\<close> flag and without \<open>y\<close>: starting at
  \<open>lastIndex\<close>, the first index at which the matcher succeeds, with the first result
  there; no match once the index has passed the end of the input.
\<close>

definition noCaps :: caps where
  "noCaps = (\<lambda>k. None)"

function execFrom :: "mctx \<Rightarrow> regex \<Rightarrow> nat \<Rightarrow> (nat \<times> mstate) option" where
  "execFrom cx r i =
     (if length (input cx) < i then None
      else (case run cx Forward r (i, noCaps) of
              y # ys \<Rightarrow> Some (i, y)
            | [] \<Rightarrow> execFrom cx r (Suc i)))"
  by pat_completeness auto
termination
  by (relation "measure (\<lambda>(cx, r, i). Suc (length (input cx)) - i)") auto

declare execFrom.simps [simp del]

lemma execFrom_bounds:
  "execFrom cx r i = Some (s, e, cap) \<Longrightarrow> i \<le> s \<and> s \<le> e \<and> e \<le> length (input cx)"
proof (induction cx r i rule: execFrom.induct)
  case (1 cx r i)
  show ?case
  proof (cases "run cx Forward r (i, noCaps)")
    case Nil
    with 1 show ?thesis
      by (subst (asm) (2) execFrom.simps) (auto split: if_splits)
  next
    case (Cons z zs)
    with 1(2) have "s = i \<and> (e, cap) = z \<and> i \<le> length (input cx)"
      by (subst (asm) execFrom.simps) (auto split: if_splits)
    moreover have "z \<in> set (run cx Forward r (i, noCaps))"
      using Cons by simp
    ultimately show ?thesis
      using run_forward[of e cap cx r i noCaps] by auto
  qed
qed

section \<open>Pattern sources\<close>

text \<open>
  \<^verbatim>\<open>new RegExp(source, flags)\<close> parses the source text. The parser below covers
  alternation, the quantifiers \<^verbatim>\<open>* + ?\<close> and their lazy forms, capturing and non-capturing
  groups, the four look-around assertions, \<^verbatim>\<open>^\<close>, \<^verbatim>\<open>$\<close>, \<^verbatim>\<open>.\<close>, the class escapes,
  escaped syntax characters and control escapes, and bracket classes of plain characters
  and ranges. It answers \<open>SyntaxError\<close> where the constructor throws (an unbalanced
  parenthesis, a quantifier with nothing to repeat, a dangling backslash, an unterminated
  or ill-ordered class) and \<open>Unsupported\<close> for a source outside this fragment (braces,
  back-references, named groups, other escapes, a quantified assertion), about which
  this development says nothing.
\<close>

abbreviation (input) backslash :: nat where
  "backslash \<equiv> 92"

datatype perror = SyntaxError | Unsupported

datatype gkind = Capture | NonCapture | Around direction bool

datatype token =
    TAtom regex
  | TAssert regex
  | TStar | TPlus | TQuest | TBar
  | TOpen gkind
  | TClose

fun classItems :: "jstring \<Rightarrow> perror + citem list" where
  "classItems (a # b # c # cs) =
     (if a = backslash then Inl Unsupported
      else if b = of_char CHR ''-'' then
        (if c = backslash then Inl Unsupported
         else if c < a then Inl SyntaxError
         else (case classItems cs of Inl err \<Rightarrow> Inl err | Inr its \<Rightarrow> Inr (Range a c # its)))
      else (case classItems (b # c # cs) of Inl err \<Rightarrow> Inl err | Inr its \<Rightarrow> Inr (Single a # its)))"
| "classItems (a # cs) =
     (if a = backslash then Inl Unsupported
      else (case classItems cs of Inl err \<Rightarrow> Inl err | Inr its \<Rightarrow> Inr (Single a # its)))"
| "classItems [] = Inr []"

definition escapeAtom :: "nat \<Rightarrow> perror + token" where
  "escapeAtom c =
     (if c = of_char CHR ''d'' then Inr (TAtom (Esc Digit False))
      else if c = of_char CHR ''D'' then Inr (TAtom (Esc Digit True))
      else if c = of_char CHR ''w'' then Inr (TAtom (Esc Word False))
      else if c = of_char CHR ''W'' then Inr (TAtom (Esc Word True))
      else if c = of_char CHR ''s'' then Inr (TAtom (Esc Space False))
      else if c = of_char CHR ''S'' then Inr (TAtom (Esc Space True))
      else if c = of_char CHR ''t'' then Inr (TAtom (Chr 9))
      else if c = of_char CHR ''n'' then Inr (TAtom (Chr 10))
      else if c = of_char CHR ''v'' then Inr (TAtom (Chr 11))
      else if c = of_char CHR ''f'' then Inr (TAtom (Chr 12))
      else if c = of_char CHR ''r'' then Inr (TAtom (Chr 13))
      else if c \<in> set (asc ''^$.*+?()[]{}|/'') \<or> c = backslash then Inr (TAtom (Chr c))
      else Inl Unsupported)"

definition groupOpen :: "jstring \<Rightarrow> perror + (gkind \<times> nat)" where
  "groupOpen cs =
     (if take 1 cs \<noteq> asc ''?'' then Inr (Capture, 0)
      else if take 2 cs = asc ''?:'' then Inr (NonCapture, 2)
      else if take 2 cs = asc ''?='' then Inr (Around Forward False, 2)
      else if take 2 cs = asc ''?!'' then Inr (Around Forward True, 2)
      else if take 3 cs = asc ''?<='' then Inr (Around Backward False, 3)
      else if take 3 cs = asc ''?<!'' then Inr (Around Backward True, 3)
      else Inl Unsupported)"

function lex :: "jstring \<Rightarrow> perror + token list" where
  "lex [] = Inr []"
| "lex (c # cs) =
     (if c = backslash then
        (case cs of
           [] \<Rightarrow> Inl SyntaxError
         | e # rest \<Rightarrow>
             (case escapeAtom e of
                Inl err \<Rightarrow> Inl err
              | Inr t \<Rightarrow> (case lex rest of Inl err \<Rightarrow> Inl err | Inr ts \<Rightarrow> Inr (t # ts))))
      else if c = of_char CHR ''['' then
        (let neg = (take 1 cs = asc ''^'');
             body = (if neg then drop 1 cs else cs);
             inner = takeWhile (\<lambda>k. k \<noteq> of_char CHR '']'') body;
             rest = drop (Suc (length inner)) body
         in if length inner = length body then
              (if backslash \<in> set inner then Inl Unsupported else Inl SyntaxError)
            else
              (case classItems inner of
                 Inl err \<Rightarrow> Inl err
               | Inr its \<Rightarrow>
                   (case lex rest of
                      Inl err \<Rightarrow> Inl err
                    | Inr ts \<Rightarrow> Inr (TAtom (CharSet its neg) # ts))))
      else if c = of_char CHR ''('' then
        (case groupOpen cs of
           Inl err \<Rightarrow> Inl err
         | Inr (k, n) \<Rightarrow>
             (case lex (drop n cs) of Inl err \<Rightarrow> Inl err | Inr ts \<Rightarrow> Inr (TOpen k # ts)))
      else if c = of_char CHR ''{'' then Inl Unsupported
      else
        (case lex cs of
           Inl err \<Rightarrow> Inl err
         | Inr ts \<Rightarrow>
             Inr ((if c = of_char CHR '')'' then TClose
                   else if c = of_char CHR ''|'' then TBar
                   else if c = of_char CHR ''*'' then TStar
                   else if c = of_char CHR ''+'' then TPlus
                   else if c = of_char CHR ''?'' then TQuest
                   else if c = of_char CHR ''.'' then TAtom Dot
                   else if c = of_char CHR ''^'' then TAssert Bos
                   else if c = of_char CHR ''$'' then TAssert Eos
                   else TAtom (Chr c)) # ts)))"
  by pat_completeness auto
termination
  by (relation "measure length") (auto simp: Let_def less_Suc_eq_le)

declare lex.simps [simp del]

text \<open>
  The parser keeps the enclosing groups on a stack. A frame holds the kind and number of
  its group, the alternatives finished so far and the terms of the current alternative,
  both latest first; a term remembers whether a quantifier may still follow it.
\<close>

datatype tstat = Plain | Greedy | Lazy | Assertion

type_synonym frame = "gkind \<times> nat \<times> regex list \<times> (regex \<times> tstat) list"

fun seqs :: "regex list \<Rightarrow> regex" where
  "seqs [] = Eps"
| "seqs [r] = r"
| "seqs (r # rs) = Seq r (seqs rs)"

fun alts :: "regex list \<Rightarrow> regex" where
  "alts [] = Eps"
| "alts [r] = r"
| "alts (r # rs) = Alt r (alts rs)"

definition disjunction :: "regex list \<Rightarrow> (regex \<times> tstat) list \<Rightarrow> regex" where
  "disjunction done terms = alts (rev (seqs (rev (map fst terms)) # done))"

fun wrap :: "gkind \<Rightarrow> nat \<Rightarrow> regex \<Rightarrow> regex \<times> tstat" where
  "wrap Capture k r = (Grp k r, Plain)"
| "wrap NonCapture k r = (r, Plain)"
| "wrap (Around d negative) k r = (Look d negative r, Assertion)"

fun quantify :: "token \<Rightarrow> regex \<Rightarrow> regex" where
  "quantify TStar r = Star r True"
| "quantify TPlus r = Plus r True"
| "quantify TQuest r = Opt r True"
| "quantify t r = r"

fun lazy :: "regex \<Rightarrow> regex" where
  "lazy (Star r g) = Star r False"
| "lazy (Plus r g) = Plus r False"
| "lazy (Opt r g) = Opt r False"
| "lazy r = r"

definition quantifier :: "token \<Rightarrow> (regex \<times> tstat) list \<Rightarrow> perror + (regex \<times> tstat) list" where
  "quantifier q terms =
     (case terms of
        [] \<Rightarrow> Inl SyntaxError
      | (r, st) # rest \<Rightarrow>
          (case st of
             Plain \<Rightarrow> Inr ((quantify q r, Greedy) # rest)
           | Greedy \<Rightarrow> if q = TQuest then Inr ((lazy r, Lazy) # rest) else Inl SyntaxError
           | Lazy \<Rightarrow> Inl SyntaxError
           | Assertion \<Rightarrow> Inl Unsupported))"

fun parse :: "token list \<Rightarrow> frame list \<Rightarrow> frame \<Rightarrow> nat \<Rightarrow> perror + (regex \<times> nat)" where
  "parse [] stack (k, idx, done, terms) n =
     (if stack = [] then Inr (disjunction done terms, n) else Inl SyntaxError)"
| "parse (TAtom a # toks) stack (k, idx, done, terms) n =
     parse toks stack (k, idx, done, (a, Plain) # terms) n"
| "parse (TAssert a # toks) stack (k, idx, done, terms) n =
     parse toks stack (k, idx, done, (a, Assertion) # terms) n"
| "parse (TBar # toks) stack (k, idx, done, terms) n =
     parse toks stack (k, idx, seqs (rev (map fst terms)) # done, []) n"
| "parse (TOpen g # toks) stack fr n =
     (if g = Capture then parse toks (fr # stack) (g, Suc n, [], []) (Suc n)
      else parse toks (fr # stack) (g, 0, [], []) n)"
| "parse (TClose # toks) stack (k, idx, done, terms) n =
     (case stack of
        [] \<Rightarrow> Inl SyntaxError
      | (k', idx', done', terms') # stack' \<Rightarrow>
          parse toks stack' (k', idx', done', wrap k idx (disjunction done terms) # terms') n)"
| "parse (q # toks) stack (k, idx, done, terms) n =
     (case quantifier q terms of
        Inl err \<Rightarrow> Inl err
      | Inr terms' \<Rightarrow> parse toks stack (k, idx, done, terms') n)"

text \<open>A regular-expression object: the parsed pattern, its number of groups, its flags.\<close>

record regexp =
  body :: regex
  ngroups :: nat
  ignoreCaseFlag :: bool
  dotAllFlag :: bool

definition newRegExp :: "jstring \<Rightarrow> bool \<Rightarrow> bool \<Rightarrow> perror + regexp" where
  "newRegExp source i s =
     (case lex source of
        Inl err \<Rightarrow> Inl err
      | Inr toks \<Rightarrow>
          (case parse toks [] (NonCapture, 0, [], []) 0 of
             Inl err \<Rightarrow> Inl err
           | Inr (r, n) \<Rightarrow> Inr \<lparr>body = r, ngroups = n, ignoreCaseFlag = i, dotAllFlag = s\<rparr>))"

definition matchContext :: "(nat \<Rightarrow> nat option) \<Rightarrow> regexp \<Rightarrow> jstring \<Rightarrow> mctx" where
  "matchContext up re s =
     \<lparr>upper = up, ignoreCase = ignoreCaseFlag re, dotAll = dotAllFlag re, input = s\<rparr>"

section \<open>String methods that take a regular expression\<close>

definition slice :: "jstring \<Rightarrow> nat \<Rightarrow> nat \<Rightarrow> jstring" where
  "slice s a b = take (b - a) (drop a s)"

text \<open>
  \<^verbatim>\<open>regex.test(s)\<close> on a fresh object searches from index 0. (It also leaves the end of
  the match in \<open>lastIndex\<close>; the only later use of the object is \<open>replace\<close>, which for a
  global expression starts again from 0.)
\<close>

definition regexTest :: "(nat \<Rightarrow> nat option) \<Rightarrow> regexp \<Rightarrow> jstring \<Rightarrow> bool" where
  "regexTest up re s = (execFrom (matchContext up re s) (body re) 0 \<noteq> None)"

text \<open>
  \<^verbatim>\<open>s.replace(regex, template)\<close> with the \<open>g\<close> flag first collects all matches, stepping over
  an empty match by one code unit.
\<close>

function matchAll :: "mctx \<Rightarrow> regex \<Rightarrow> nat \<Rightarrow> (nat \<times> mstate) list" where
  "matchAll cx r i =
     (case execFrom cx r i of
        None \<Rightarrow> []
      | Some (s, e, cap) \<Rightarrow> (s, e, cap) # matchAll cx r (if e = s then e + 1 else e))"
  by pat_completeness auto
termination
proof (relation "measure (\<lambda>(cx, r, i). Suc (length (input cx)) - i)")
  fix cx r i x2 s y e cap
  assume "execFrom cx r i = Some x2" "(s, y) = x2" "(e, cap) = y"
  then have "execFrom cx r i = Some (s, e, cap)" by simp
  from execFrom_bounds[OF this]
  show "((cx, r, if e = s then e + 1 else e), cx, r, i)
          \<in> measure (\<lambda>(cx, r, i). Suc (length (input cx)) - i)"
    by auto
qed simp

declare matchAll.simps [simp del]

text \<open>
  The replacement template, expanded for one match: \<^verbatim>\<open>$$\<close>, \<^verbatim>\<open>$&\<close>, the text before and
  after the match, and \<^verbatim>\<open>$n\<close>, \<^verbatim>\<open>$nn\<close> for the captures (a two-digit reference beyond the
  number of groups is read as a one-digit reference followed by a digit; a reference to
  no group stays as it is written; a group that did not take part gives the empty text).
\<close>

definition isDigit :: "nat \<Rightarrow> bool" where
  "isDigit c = (48 \<le> c \<and> c \<le> 57)"

definition capture :: "jstring \<Rightarrow> caps \<Rightarrow> nat \<Rightarrow> jstring" where
  "capture s cap k = (case cap k of None \<Rightarrow> [] | Some (a, b) \<Rightarrow> slice s a b)"

fun getSubstitution :: "jstring \<Rightarrow> nat \<Rightarrow> nat \<Rightarrow> caps \<Rightarrow> nat \<Rightarrow> jstring \<Rightarrow> jstring" where
  "getSubstitution str position tailPos cap m [] = []"
| "getSubstitution str position tailPos cap m [c] = [c]"
| "getSubstitution str position tailPos cap m (c # d # rest) =
     (if c \<noteq> of_char CHR ''$'' then c # getSubstitution str position tailPos cap m (d # rest)
      else if d = of_char CHR ''$'' then d # getSubstitution str position tailPos cap m rest
      else if d = of_char CHR ''&'' then
        slice str position tailPos @ getSubstitution str position tailPos cap m rest
      else if d = 96 then
        take position str @ getSubstitution str position tailPos cap m rest
      else if d = 39 then
        drop tailPos str @ getSubstitution str position tailPos cap m rest
      else if isDigit d then
        (case rest of
           d2 # rest2 \<Rightarrow>
             if isDigit d2 \<and> 10 * (d - 48) + (d2 - 48) \<le> m then
               (if 1 \<le> 10 * (d - 48) + (d2 - 48)
                then capture str cap (10 * (d - 48) + (d2 - 48))
                     @ getSubstitution str position tailPos cap m rest2
                else c # d # d2 # getSubstitution str position tailPos cap m rest2)
             else if 1 \<le> d - 48 \<and> d - 48 \<le> m
               then capture str cap (d - 48) @ getSubstitution str position tailPos cap m rest
               else c # d # getSubstitution str position tailPos cap m rest
         | [] \<Rightarrow>
             if 1 \<le> d - 48 \<and> d - 48 \<le> m
             then capture str cap (d - 48) @ getSubstitution str position tailPos cap m rest
             else c # d # getSubstitution str position tailPos cap m rest)
      else c # getSubstitution str position tailPos cap m (d # rest))"

fun assemble :: "jstring \<Rightarrow> nat \<Rightarrow> jstring \<Rightarrow> nat \<Rightarrow> (nat \<times> mstate) list \<Rightarrow> jstring" where
  "assemble str m template nextSourcePosition [] = drop nextSourcePosition str"
| "assemble str m template nextSourcePosition ((position, e, cap) # results) =
     (if nextSourcePosition \<le> position then
        slice str nextSourcePosition position
        @ getSubstitution str position e cap m template
        @ assemble str m template e results
      else assemble str m template nextSourcePosition results)"

definition stringReplace :: "(nat \<Rightarrow> nat option) \<Rightarrow> regexp \<Rightarrow> jstring \<Rightarrow> jstring \<Rightarrow> jstring" where
  "stringReplace up re str template =
     assemble str (ngroups re) template 0 (matchAll (matchContext up re str) (body re) 0)"

text \<open>
  \<^verbatim>\<open>s.split(regex)\<close> tries the expression at each index \<open>q\<close> in turn (as a sticky match);
  a match that ends where the current piece starts is skipped; otherwise the piece before
  \<open>q\<close> and the captures of the match (absent ones as \<open>None\<close>) are emitted and the next
  piece starts at the end of the match.
\<close>

definition captured :: "jstring \<Rightarrow> caps \<Rightarrow> nat \<Rightarrow> jstring option" where
  "captured s cap k = (case cap k of None \<Rightarrow> None | Some (a, b) \<Rightarrow> Some (slice s a b))"

function splitLoop :: "mctx \<Rightarrow> regexp \<Rightarrow> nat \<Rightarrow> nat \<Rightarrow> jstring option list" where
  "splitLoop cx re p q =
     (if q < length (input cx) then
        (case run cx Forward (body re) (q, noCaps) of
           [] \<Rightarrow> splitLoop cx re p (Suc q)
         | (e0, cap) # ys \<Rightarrow>
             (if min e0 (length (input cx)) = p then splitLoop cx re p (Suc q)
              else Some (slice (input cx) p q)
                   # map (captured (input cx) cap) [1..<Suc (ngroups re)]
                   @ splitLoop cx re (min e0 (length (input cx))) (min e0 (length (input cx)))))
      else [Some (drop p (input cx))])"
  by pat_completeness auto
termination
proof (relation "measures [\<lambda>(cx, re, p, q). length (input cx) - q,
                           \<lambda>(cx, re, p, q). if p = q then 0 else 1]")
  fix cx re p q x21 x22 e0 cap
  assume a: "q < length (input cx)" "run cx Forward (body re) (q, noCaps) = x21 # x22"
    "(e0, cap) = x21" "min e0 (length (input cx)) \<noteq> p"
  then have "(e0, cap) \<in> set (run cx Forward (body re) (q, noCaps))" by simp
  from run_forward[OF this] a(1) have "q \<le> e0" "e0 \<le> length (input cx)" by auto
  with a show "((cx, re, min e0 (length (input cx)), min e0 (length (input cx))), cx, re, p, q)
      \<in> measures [\<lambda>(cx, re, p, q). length (input cx) - q,
                    \<lambda>(cx, re, p, q). if p = q then 0 else 1]"
    by (cases "e0 = q") auto
qed auto

declare splitLoop.simps [simp del]

definition stringSplit :: "(nat \<Rightarrow> nat option) \<Rightarrow> regexp \<Rightarrow> jstring \<Rightarrow> jstring option list" where
  "stringSplit up re s =
     (if s = [] then
        (case run (matchContext up re s) Forward (body re) (0, noCaps) of
           [] \<Rightarrow> [Some s]
         | y # ys \<Rightarrow> [])
      else splitLoop (matchContext up re s) re 0 0)"


section \<open>Configuration and messages (index.ts, lines 6-41 and 92-111)\<close>

text \<open>
  The three objects of the configuration each have a field \<open>enable\<close>; the group's is
  \<open>groupEnable\<close> here and the mute setting's is \<open>muteEnable\<close>. \<open>blockingWords\<close> is the
  dictionary as \<^verbatim>\<open>Object.entries\<close> lists it: pairs of key and rule, in the order in which
  the loop visits them.
\<close>

record BlockingWords =
  enable :: bool
  triggerMute :: bool
  recall :: bool
  replace :: bool
  replaceWord :: jstring

record MuteConfig =
  muteEnable :: bool
  threshold :: nat
  duration :: nat

record GroupRule =
  groupId :: jstring
  groupEnable :: bool
  muteConfig :: MuteConfig
  blockingWords :: "(jstring \<times> BlockingWords) list"
  customMessage :: jstring
  alertContent :: jstring
  correctPrefix :: jstring

text \<open>
  A message element has a type and attributes. A template literal prints a missing
  attribute as \<^verbatim>\<open>undefined\<close>; the default branch takes the attribute \<open>content\<close> or the
  empty string.
\<close>

record element =
  etype :: jstring
  attrs :: "jstring \<Rightarrow> jstring option"

definition attr :: "element \<Rightarrow> string \<Rightarrow> jstring" where
  "attr e k = (case attrs e (asc k) of None \<Rightarrow> asc ''undefined'' | Some v \<Rightarrow> v)"

definition elementText :: "element \<Rightarrow> jstring" where
  "elementText e =
     (if etype e = asc ''at'' then asc ''[CQ:at,qq='' @ attr e ''id'' @ asc '']''
      else if etype e = asc ''image'' then asc ''[CQ:image,file='' @ attr e ''file'' @ asc '']''
      else if etype e = asc ''face'' then asc ''[CQ:face,id='' @ attr e ''id'' @ asc '']''
      else if etype e = asc ''mface'' then asc ''[CQ:mface,id='' @ attr e ''emojiId'' @ asc '']''
      else (case attrs e (asc ''content'') of None \<Rightarrow> [] | Some v \<Rightarrow> v))"

definition normalize :: "element list \<Rightarrow> jstring" where
  "normalize es = concat (map elementText es)"

section \<open>Rule evaluation (index.ts, lines 130-152)\<close>

text \<open>
  The source text of a rule's expression: the template literal of line 140, in which
  \<^verbatim>\<open>\\\<close> stands for one backslash and \<^verbatim>\<open>$CQ\<close> for itself, with the rule's key spliced in.
  The flags are \<open>g\<close>, \<open>i\<close> and \<open>s\<close>.
\<close>

definition ruleSource :: "jstring \<Rightarrow> jstring" where
  "ruleSource pattern =
     asc ''(?<!'' @ [backslash] @ asc ''$CQ:'' @ [backslash] @ asc ''w+.*?'' @ [backslash]
     @ asc ''$CQ)'' @ [backslash] @ asc ''s*('' @ pattern @ asc '')''"

record FilterResult =
  modifiedMessage :: jstring
  needRecall :: bool
  muteCount :: nat
  hasTriggerMuteRule :: bool
  hasValidReplace :: bool

definition initialResult :: "jstring \<Rightarrow> FilterResult" where
  "initialResult message =
     \<lparr>modifiedMessage = message, needRecall = False, muteCount = 0,
      hasTriggerMuteRule = False, hasValidReplace = False\<rparr>"

text \<open>One turn of the loop. An error is the exception that the constructor throws.\<close>

definition applyRule ::
  "(nat \<Rightarrow> nat option) \<Rightarrow> FilterResult \<Rightarrow> jstring \<times> BlockingWords \<Rightarrow> perror + FilterResult" where
  "applyRule up fr entry =
     (case entry of (pattern, rule) \<Rightarrow>
        if \<not> enable rule then Inr fr
        else
          (case newRegExp (ruleSource pattern) True True of
             Inl err \<Rightarrow> Inl err
           | Inr regex \<Rightarrow>
               if regexTest up regex (modifiedMessage fr) then
                 (let fr1 = (if enable rule
                             then fr\<lparr>modifiedMessage :=
                                       stringReplace up regex (modifiedMessage fr)
                                         (if replace rule then replaceWord rule else []),
                                     hasValidReplace := True\<rparr>
                             else fr);
                      fr2 = fr1\<lparr>needRecall := needRecall fr1 \<or> recall rule\<rparr>;
                      fr3 = (if triggerMute rule
                             then fr2\<lparr>hasTriggerMuteRule := True, muteCount := 1\<rparr>
                             else fr2)
                  in Inr fr3)
               else Inr fr))"

fun filterRules ::
  "(nat \<Rightarrow> nat option) \<Rightarrow> (jstring \<times> BlockingWords) list \<Rightarrow> FilterResult \<Rightarrow> perror + FilterResult" where
  "filterRules up [] fr = Inr fr"
| "filterRules up (entry # entries) fr =
     (case applyRule up fr entry of
        Inl err \<Rightarrow> Inl err
      | Inr fr' \<Rightarrow> filterRules up entries fr')"

definition filterMessage ::
  "(nat \<Rightarrow> nat option) \<Rightarrow> (jstring \<times> BlockingWords) list \<Rightarrow> jstring \<Rightarrow> perror + FilterResult" where
  "filterMessage up entries message = filterRules up entries (initialResult message)"


section \<open>Violation records (index.ts, lines 114 and 155-171, 200-201)\<close>

text \<open>
  \<open>violationRecords\<close> maps the key \<^verbatim>\<open>groupId:userId\<close> to a record. \<open>setTimeout\<close> returns a
  fresh handle; a pending timer is remembered with the key its callback deletes and the
  time at which it is due; \<open>clearTimeout\<close> forgets it.
\<close>

record ViolationRecord =
  count :: nat
  timer :: nat

record Tracker =
  violationRecords :: "jstring \<Rightarrow> ViolationRecord option"
  timers :: "nat \<Rightarrow> (jstring \<times> nat) option"
  nextTimer :: nat

datatype logline = AutoReset | RecallFailed | MuteFailed | MessageFailed | HandlerFailed

datatype effect =
    DeleteMsg jstring
  | SetGroupBan jstring jstring nat
  | SendGroupMsg jstring jstring
  | Log logline
  | Next

text \<open>
  Lines 155-171: the record is created with count 0 and a timer of 24 hours when the key
  has none, then its count grows by \<open>muteCount\<close>; the answer is the record, whether the
  threshold is reached, and the new state.
\<close>

definition registerViolation ::
  "jstring \<Rightarrow> nat \<Rightarrow> nat \<Rightarrow> nat \<Rightarrow> Tracker \<Rightarrow> ViolationRecord \<times> bool \<times> Tracker" where
  "registerViolation recordKey muteCnt thresh now st =
     (let created =
            (case violationRecords st recordKey of
               Some record \<Rightarrow> (record, st)
             | None \<Rightarrow>
                 (\<lparr>count = 0, timer = nextTimer st\<rparr>,
                  st\<lparr>violationRecords :=
                        (violationRecords st)(recordKey \<mapsto> \<lparr>count = 0, timer = nextTimer st\<rparr>),
                      timers := (timers st)(nextTimer st \<mapsto> (recordKey, now + 24 * 3600 * 1000)),
                      nextTimer := Suc (nextTimer st)\<rparr>));
          record = (fst created)\<lparr>count := count (fst created) + muteCnt\<rparr>;
          st' = (snd created)\<lparr>violationRecords := (violationRecords (snd created))(recordKey \<mapsto> record)\<rparr>
      in (record, thresh \<le> count record, st'))"

text \<open>Lines 200-201: \<^verbatim>\<open>clearTimeout(record.timer); violationRecords.delete(recordKey)\<close>.\<close>

definition clearViolation :: "ViolationRecord \<Rightarrow> jstring \<Rightarrow> Tracker \<Rightarrow> Tracker" where
  "clearViolation record recordKey st =
     st\<lparr>timers := (timers st)(timer record := None),
        violationRecords := (violationRecords st)(recordKey := None)\<rparr>"

text \<open>Line 234, \<^verbatim>\<open>record?.count || 0\<close>: the count on record for a key, 0 when there is none.\<close>

definition countOf :: "Tracker \<Rightarrow> jstring \<Rightarrow> nat" where
  "countOf st recordKey =
     (case violationRecords st recordKey of None \<Rightarrow> 0 | Some record \<Rightarrow> count record)"

text \<open>Lines 162-165: the callback of a timer that is still pending.\<close>

definition fireTimer :: "nat \<Rightarrow> Tracker \<Rightarrow> effect list \<times> Tracker" where
  "fireTimer handle st =
     (case timers st handle of
        None \<Rightarrow> ([], st)
      | Some (recordKey, due) \<Rightarrow>
          ([Log AutoReset],
           st\<lparr>violationRecords := (violationRecords st)(recordKey := None),
              timers := (timers st)(handle := None)\<rparr>))"


section \<open>Duration text of the mute notice (index.ts, lines 183-188)\<close>

text \<open>
  \<^verbatim>\<open>const hours = Math.floor(totalSeconds / 3600);\<close>
  \<^verbatim>\<open>const minutes = Math.ceil((totalSeconds % 3600) / 60);\<close>

  The operands are doubles with natural values. The remainder of two such numbers is
  exact. The quotient is the double nearest to the real quotient, the nearest with an
  even significand when two are equally near: for \<open>n > 0\<close> and \<open>d > 0\<close> the real
  quotient is scaled by a power of two into the range from \<open>2^52\<close> to \<open>2^53\<close>, where
  the doubles are the integers, rounded there, and scaled back. (No quotient of this
  handler is large or small enough to leave the range of the normal doubles.)
  \<open>bits n\<close> is the number of binary digits of \<open>n\<close>.
\<close>

fun bits :: "nat \<Rightarrow> nat" where
  "bits n = (if n = 0 then 0 else Suc (bits (n div 2)))"

declare bits.simps [simp del]

text \<open>The integer nearest to \<open>num / den\<close>, the even one of two that are equally near.\<close>

definition roundTiesToEven :: "nat \<Rightarrow> nat \<Rightarrow> nat" where
  "roundTiesToEven num den =
     (let q = num div den; r = num mod den
      in if 2 * r < den \<or> (2 * r = den \<and> even q) then q else q + 1)"

text \<open>
  The exponents \<open>a\<close> and \<open>b\<close> for which \<open>n * 2^a / (d * 2^b)\<close> lies between \<open>2^52\<close>
  (included) and \<open>2^53\<close> (excluded).
\<close>

definition scaling :: "nat \<Rightarrow> nat \<Rightarrow> nat \<times> nat" where
  "scaling n d =
     (let a = 53 + bits d - bits n; b = bits n - (53 + bits d)
      in if d * 2 ^ b * 2 ^ 53 \<le> n * 2 ^ a then (a, Suc b) else (a, b))"

definition doubleQuotient :: "nat \<Rightarrow> nat \<Rightarrow> real" where
  "doubleQuotient n d =
     (if n = 0 then 0
      else case scaling n d of
             (a, b) \<Rightarrow> real (roundTiesToEven (n * 2 ^ a) (d * 2 ^ b)) * 2 ^ b / 2 ^ a)"

definition hours :: "nat \<Rightarrow> nat" where
  "hours totalSeconds = nat \<lfloor>doubleQuotient totalSeconds 3600\<rfloor>"

definition minutes :: "nat \<Rightarrow> nat" where
  "minutes totalSeconds = nat \<lceil>doubleQuotient (totalSeconds mod 3600) 60\<rceil>"

text \<open>The two unit words of the source: U+5C0F U+65F6 (hours) and U+5206 U+949F (minutes).\<close>

definition hourUnit :: jstring where
  "hourUnit = [0x5C0F, 0x65F6]"

definition minuteUnit :: jstring where
  "minuteUnit = [0x5206, 0x949F]"

definition durationText :: "nat \<Rightarrow> jstring" where
  "durationText totalSeconds =
     (let t0 = [];
          t1 = (if 0 < hours totalSeconds then t0 @ showNat (hours totalSeconds) @ hourUnit else t0);
          t2 = (if 0 < minutes totalSeconds then t1 @ showNat (minutes totalSeconds) @ minuteUnit else t1)
      in t2)"

section \<open>The response (index.ts, lines 154-245)\<close>

text \<open>
  What the handler reads from the session, and how the calls to the platform end. Each
  call is at most one per message, so its outcome is one flag; a call made is recorded in
  the list of effects whether it succeeds or not.
\<close>

record Meta =
  onebot :: bool
  subtype :: jstring
  guildId :: jstring
  userId :: jstring
  messageId :: jstring
  quoteId :: "jstring option"
  elements :: "element list"

record Outcomes =
  memberRoles :: "(jstring \<times> jstring) option"
  deleteMsgOk :: bool
  setGroupBanOk :: bool
  sendGroupMsgOk :: bool

text \<open>\<^verbatim>\<open>deleteMsg(...).catch(...)\<close>: a failure is logged and goes no further.\<close>

definition recallMessage :: "Outcomes \<Rightarrow> Meta \<Rightarrow> effect list" where
  "recallMessage env meta =
     DeleteMsg (messageId meta) # (if deleteMsgOk env then [] else [Log RecallFailed])"

definition mention :: "Meta \<Rightarrow> jstring" where
  "mention meta = asc ''[CQ:at,qq='' @ userId meta @ asc ''] ''"

text \<open>
  The fixed words of lines 197 and 234, as code units:
  U+56E0 U+7D2F U+8BA1 U+8FDD U+89C4 and a space; a space, U+6B21 U+FF0C U+5DF2 U+88AB
  U+7981 U+8A00 and a space; U+7D2F U+8BA1 U+8FDD U+89C4 and a space; a space and U+6B21
  U+540E U+7981 U+8A00 U+FF01.
\<close>

definition muteNoticeHead :: jstring where
  "muteNoticeHead = [0x56E0, 0x7D2F, 0x8BA1, 0x8FDD, 0x89C4, 0x20]"

definition muteNoticeMid :: jstring where
  "muteNoticeMid = [0x20, 0x6B21, 0xFF0C, 0x5DF2, 0x88AB, 0x7981, 0x8A00, 0x20]"

definition warnHead :: jstring where
  "warnHead = [0x7D2F, 0x8BA1, 0x8FDD, 0x89C4, 0x20]"

definition warnTail :: jstring where
  "warnTail = [0x20, 0x6B21, 0x540E, 0x7981, 0x8A00, 0xFF01]"

text \<open>Lines 183-198: the text sent after a mute.\<close>

definition muteNotice :: "GroupRule \<Rightarrow> Meta \<Rightarrow> jstring \<Rightarrow> FilterResult \<Rightarrow> ViolationRecord \<Rightarrow> jstring" where
  "muteNotice cfg meta message fr record =
     (let contentPart =
            (if hasValidReplace fr \<and> modifiedMessage fr \<noteq> message
             then correctPrefix cfg @ modifiedMessage fr @ asc ''\<newline>''
             else [])
      in mention meta @ alertContent cfg @ asc ''\<newline>''
         @ contentPart
         @ muteNoticeHead @ showNat (count record) @ asc ''/''
         @ showNat (threshold (muteConfig cfg)) @ muteNoticeMid
         @ durationText (duration (muteConfig cfg)))"

text \<open>
  Lines 173-205. An exception of \<open>setGroupBan\<close> or of \<open>sendGroupMsg\<close> leaves the \<open>try\<close>
  block at once and is logged by its \<open>catch\<close>.
\<close>

definition muteBranch ::
  "Outcomes \<Rightarrow> GroupRule \<Rightarrow> Meta \<Rightarrow> jstring \<Rightarrow> FilterResult \<Rightarrow> ViolationRecord \<Rightarrow> Tracker
     \<Rightarrow> effect list \<times> Tracker" where
  "muteBranch env cfg meta message fr record st =
     (let recalled = (if needRecall fr then recallMessage env meta else []);
          ban = SetGroupBan (guildId meta) (userId meta) (duration (muteConfig cfg));
          send = SendGroupMsg (guildId meta) (muteNotice cfg meta message fr record)
      in if \<not> setGroupBanOk env then (recalled @ [ban, Log MuteFailed], st)
         else if \<not> sendGroupMsgOk env then (recalled @ [ban, send, Log MuteFailed], st)
         else (recalled @ [ban, send],
               clearViolation record (guildId meta @ asc '':'' @ userId meta) st))"

text \<open>
  Lines 221-228. The two regular-expression literals, as the parser reads them (see
  \<open>literals_parse\<close> below), and the loop over the pieces: a piece at an even index has
  its ampersands replaced, a piece at an odd index is appended as it is. (A missing piece
  would raise a TypeError at an even index and print as \<^verbatim>\<open>undefined\<close> at an odd one.)
\<close>

definition cqPattern :: regexp where
  "cqPattern =
     \<lparr>body = Seq Eos (Seq (Chr 67) (Seq (Chr 81) (Seq (Chr 58)
               (Seq (Star (CharSet [Single 36] True) True) (Chr 93))))),
      ngroups = 0, ignoreCaseFlag = False, dotAllFlag = False\<rparr>"

definition ampPattern :: regexp where
  "ampPattern = \<lparr>body = Chr 38, ngroups = 0, ignoreCaseFlag = False, dotAllFlag = False\<rparr>"

fun escapeParts :: "(nat \<Rightarrow> nat option) \<Rightarrow> nat \<Rightarrow> jstring option list \<Rightarrow> jstring option" where
  "escapeParts up i [] = Some []"
| "escapeParts up i (part # parts) =
     (if i mod 2 = 0 then
        (case part of
           None \<Rightarrow> None
         | Some text \<Rightarrow>
             map_option (\<lambda>rest. stringReplace up ampPattern text (asc ''&amp;'') @ rest)
               (escapeParts up (Suc i) parts))
      else
        map_option (\<lambda>rest. (case part of None \<Rightarrow> asc ''undefined'' | Some text \<Rightarrow> text) @ rest)
          (escapeParts up (Suc i) parts))"

definition escapedText :: "(nat \<Rightarrow> nat option) \<Rightarrow> jstring \<Rightarrow> jstring option" where
  "escapedText up modified = escapeParts up 0 (stringSplit up cqPattern modified)"

text \<open>Lines 216-239: the text of the alert, or \<open>None\<close> when composing it raised.\<close>

definition finalMessage ::
  "(nat \<Rightarrow> nat option) \<Rightarrow> GroupRule \<Rightarrow> Meta \<Rightarrow> jstring \<Rightarrow> FilterResult \<Rightarrow> Tracker \<Rightarrow> jstring option" where
  "finalMessage up cfg meta message fr st =
     (let m0 = (case quoteId meta of
                  None \<Rightarrow> []
                | Some q \<Rightarrow> if q = [] then [] else asc ''[CQ:reply,id='' @ q @ asc '']'');
          m1 = m0 @ mention meta @ alertContent cfg @ asc ''\<newline>'';
          m2 = (if hasValidReplace fr \<and> modifiedMessage fr \<noteq> message
                then map_option (\<lambda>t. m1 @ correctPrefix cfg @ take 2000 t @ asc ''\<newline>'')
                       (escapedText up (modifiedMessage fr))
                else Some m1)
      in map_option
           (\<lambda>m. if hasTriggerMuteRule fr \<and> muteEnable (muteConfig cfg)
                 then m @ warnHead
                      @ showNat (countOf st (guildId meta @ asc '':'' @ userId meta))
                      @ asc ''/'' @ showNat (threshold (muteConfig cfg)) @ warnTail
                 else m @ customMessage cfg)
           m2)"

text \<open>Lines 208-245.\<close>

definition alertBranch ::
  "(nat \<Rightarrow> nat option) \<Rightarrow> Outcomes \<Rightarrow> GroupRule \<Rightarrow> Meta \<Rightarrow> jstring \<Rightarrow> FilterResult \<Rightarrow> Tracker
     \<Rightarrow> effect list" where
  "alertBranch up env cfg meta message fr st =
     (let recalled = (if needRecall fr then recallMessage env meta else [])
      in case finalMessage up cfg meta message fr st of
           None \<Rightarrow> recalled @ [Log MessageFailed]
         | Some m \<Rightarrow>
             recalled @ [SendGroupMsg (guildId meta) (take 4500 m)]
             @ (if sendGroupMsgOk env then [] else [Log MessageFailed]))"

text \<open>Lines 154-245: what the handler does once the rules have been evaluated.\<close>

definition moderate ::
  "(nat \<Rightarrow> nat option) \<Rightarrow> Outcomes \<Rightarrow> nat \<Rightarrow> GroupRule \<Rightarrow> Meta \<Rightarrow> jstring \<Rightarrow> FilterResult \<Rightarrow> Tracker
     \<Rightarrow> effect list \<times> Tracker" where
  "moderate up env now cfg meta message fr st =
     (let muted =
            (if muteEnable (muteConfig cfg) \<and> hasTriggerMuteRule fr then
               (case registerViolation (guildId meta @ asc '':'' @ userId meta) (muteCount fr)
                       (threshold (muteConfig cfg)) now st of
                  (record, shouldMute, st1) \<Rightarrow>
                    if shouldMute
                    then (True, muteBranch env cfg meta message fr record st1)
                    else (False, [], st1))
             else (False, [], st))
      in case muted of
           (shouldMute, effects, st2) \<Rightarrow>
             if (modifiedMessage fr \<noteq> message \<or> needRecall fr) \<and> \<not> shouldMute
             then (effects @ alertBranch up env cfg meta message fr st2, st2)
             else (effects, st2))"

section \<open>The middleware (index.ts, lines 113-252)\<close>

text \<open>
  \<open>configDict\<close> is a map built from the list of group rules, so the last rule of a group
  wins. The handler answers \<open>None\<close> only for a rule whose key is outside the fragment of
  pattern syntax embedded above; every exception inside the outer \<open>try\<close> is logged, and
  the message is always passed on.
\<close>

definition configDict :: "GroupRule list \<Rightarrow> jstring \<Rightarrow> GroupRule option" where
  "configDict rules = map_of (rev (map (\<lambda>rule. (groupId rule, rule)) rules))"

text \<open>
  Lines 92-111. The two member lookups run first; when one of them fails the promise is
  rejected, which is \<open>None\<close> here.
\<close>

definition handleMsg :: "Outcomes \<Rightarrow> Meta \<Rightarrow> (jstring \<times> jstring \<times> jstring) option" where
  "handleMsg env meta =
     (case memberRoles env of
        None \<Rightarrow> None
      | Some (botRole, userRole) \<Rightarrow> Some (botRole, userRole, normalize (elements meta)))"

definition middleware ::
  "(nat \<Rightarrow> nat option) \<Rightarrow> GroupRule list \<Rightarrow> Outcomes \<Rightarrow> nat \<Rightarrow> Meta \<Rightarrow> Tracker
     \<Rightarrow> (effect list \<times> Tracker) option" where
  "middleware up rules env now meta st =
     (if \<not> onebot meta \<or> subtype meta \<noteq> asc ''group'' then Some ([Next], st)
      else
        (case configDict rules (guildId meta) of
           None \<Rightarrow> Some ([Next], st)
         | Some groupConfig \<Rightarrow>
             if \<not> groupEnable groupConfig then Some ([Next], st)
             else
               (case handleMsg env meta of
                  None \<Rightarrow> Some ([Log HandlerFailed, Next], st)
                | Some (botRole, userRole, message) \<Rightarrow>
                    if botRole \<noteq> asc ''admin'' \<and> botRole \<noteq> asc ''owner'' then Some ([Next], st)
                    else
                      (case filterMessage up (blockingWords groupConfig) message of
                         Inl SyntaxError \<Rightarrow> Some ([Log HandlerFailed, Next], st)
                       | Inl Unsupported \<Rightarrow> None
                       | Inr fr \<Rightarrow>
                           (case moderate up env now groupConfig meta message fr st of
                              (effects, st') \<Rightarrow> Some (effects @ [Next], st'))))))"

section \<open>Sequences of registrations and a sample group\<close>

text \<open>
  \<open>registerAll k thr nows st\<close> is the state after one qualifying registration for the key
  \<open>k\<close> at each of the times \<open>nows\<close>, with nothing in between: no timer fires and no
  record is cleared.
\<close>

definition registerAll :: "jstring \<Rightarrow> nat \<Rightarrow> nat list \<Rightarrow> Tracker \<Rightarrow> Tracker" where
  "registerAll k thr nows st =
     foldl (\<lambda>s now. snd (snd (registerViolation k 1 thr now s))) st nows"

abbreviation (input) keyOf :: "Meta \<Rightarrow> jstring" where
  "keyOf meta \<equiv> guildId meta @ asc '':'' @ userId meta"

text \<open>
  The inputs of the closed examples: a group with two rules that both trigger the mute, a
  text message of user 42 in that group, the state in which nothing is on record, and the
  outcomes of the platform calls (the bot is an administrator).
\<close>

definition sampleRule :: BlockingWords where
  "sampleRule =
     \<lparr>enable = True, triggerMute = True, recall = False, replace = False, replaceWord = []\<rparr>"

definition sampleConfig :: "nat \<Rightarrow> jstring \<Rightarrow> GroupRule" where
  "sampleConfig thr alert =
     \<lparr>groupId = asc ''10000'', groupEnable = True,
      muteConfig = \<lparr>muteEnable = True, threshold = thr, duration = 600\<rparr>,
      blockingWords = [(asc ''foo'', sampleRule), (asc ''bar'', sampleRule)],
      customMessage = [], alertContent = alert, correctPrefix = asc ''Fixed: ''\<rparr>"

definition sampleMeta :: "jstring \<Rightarrow> Meta" where
  "sampleMeta content =
     \<lparr>onebot = True, subtype = asc ''group'', guildId = asc ''10000'', userId = asc ''42'',
      messageId = asc ''1'', quoteId = None,
      elements = [\<lparr>etype = asc ''text'', attrs = [asc ''content'' \<mapsto> content]\<rparr>]\<rparr>"

definition sampleResult :: FilterResult where
  "sampleResult =
     \<lparr>modifiedMessage = [], needRecall = False, muteCount = 1,
      hasTriggerMuteRule = True, hasValidReplace = True\<rparr>"

definition emptyTracker :: Tracker where
  "emptyTracker = \<lparr>violationRecords = Map.empty, timers = Map.empty, nextTimer = 0\<rparr>"

definition outcomes :: "bool \<Rightarrow> bool \<Rightarrow> Outcomes" where
  "outcomes banOk sendOk =
     \<lparr>memberRoles = Some (asc ''admin'', asc ''member''), deleteMsgOk = True,
      setGroupBanOk = banOk, sendGroupMsgOk = sendOk\<rparr>"

text \<open>
  The result the escaping step of lines 221-228 turns out to compute (see
  \<open>escapedText_all\<close>): every ampersand of the text replaced, wherever it stands.
\<close>

definition ampEscaped :: "jstring \<Rightarrow> jstring" where
  "ampEscaped s = concat (map (\<lambda>c. if c = 38 then asc ''&amp;'' else [c]) s)"

text \<open>
  The regular expression of a rule whose key parses to \<open>p\<close> and stays inside the group of
  line 140: the look-behind, the white space, the group.
\<close>

definition lookBehindBody :: regex where
  "lookBehindBody =
     Seq (Chr 36) (Seq (Chr 67) (Seq (Chr 81) (Seq (Chr 58)
       (Seq (Plus (Esc Word False) True) (Seq (Star Dot False)
         (Seq (Chr 36) (Seq (Chr 67) (Chr 81))))))))"

definition ruleRegExp :: "regex \<Rightarrow> regexp" where
  "ruleRegExp p =
     \<lparr>body = Seq (Look Backward True lookBehindBody)
               (Seq (Star (Esc Space False) True) (Grp 1 p)),
      ngroups = 1, ignoreCaseFlag = True, dotAllFlag = True\<rparr>"

text \<open>
  A character that the pattern syntax reads as itself: any but the backslash and
  \<^verbatim>\<open>^ $ . * + ? ( ) [ { |\<close>.
\<close>

definition plainChar :: "nat \<Rightarrow> bool" where
  "plainChar c = (c \<notin> set (asc ''^$.*+?()[{|'') \<and> c \<noteq> backslash)"

abbreviation (input) spaces :: regex where
  "spaces \<equiv> Star (Esc Space False) True"

text \<open>
  The expression of the key \<^verbatim>\<open>(foo|bar)\<close>, a key with a group of its own (see
  \<open>fooOrBar_parse\<close> below).
\<close>

definition fooOrBarKey :: regex where
  "fooOrBarKey =
     Grp 2 (Alt (Seq (Chr 102) (Seq (Chr 111) (Chr 111)))
                (Seq (Chr 98) (Seq (Chr 97) (Chr 114))))"

definition fooOrBar :: regexp where
  "fooOrBar =
     \<lparr>body = Seq (Look Backward True lookBehindBody) (Seq spaces (Grp 1 fooOrBarKey)),
      ngroups = 2, ignoreCaseFlag = True, dotAllFlag = True\<rparr>"

section \<open>Evaluating the model\<close>

text \<open>
  The closed examples below use the table of a runtime that knows no cased letters
  outside ASCII. Their inputs are ASCII, for which no table is consulted, and each of them
  is an instance of a statement proved for every table.
\<close>

definition noCaseTable :: "nat \<Rightarrow> nat option" where
  "noCaseTable c = None"

lemmas parse_eval = newRegExp_def ruleSource_def asc_def lex.simps escapeAtom_def groupOpen_def
  disjunction_def quantifier_def

lemmas match_eval = regexTest_def stringReplace_def stringSplit_def matchContext_def
  matchAll.simps execFrom.simps splitLoop.simps run.simps noCaps_def canonicalize_def
  asciiUpper_def slice_def clearCaps_def whiteSpace_def lineTerminators_def capture_def
  captured_def isDigit_def

lemmas filter_eval = filterMessage_def initialResult_def applyRule_def Let_def normalize_def
  elementText_def attr_def

lemma literals_parse:
  "newRegExp (asc ''$CQ:[^$]*]'') False False = Inr cqPattern"
  "newRegExp (asc ''&'') False False = Inr ampPattern"
  by (simp_all add: parse_eval cqPattern_def ampPattern_def)

lemma ruleSource_parse:
  "newRegExp (ruleSource (asc ''12345'')) True True
     = Inr (ruleRegExp (Seq (Chr 49) (Seq (Chr 50) (Seq (Chr 51) (Seq (Chr 52) (Chr 53))))))"
  by (simp add: parse_eval ruleRegExp_def lookBehindBody_def)

section \<open>Matching inside a markup token\<close>

text \<open>
  Claim C1. A pattern that occurs only inside the attribute value of a markup token
  should not match. The look-behind of line 140 asks for a dollar sign before \<open>CQ\<close>, which
  no token contains, so it never excludes a position inside a token (in a text without a
  dollar sign it excludes nothing at all, \<open>guard_excludes_nothing\<close>): the mention of user
  12345 is the message \<^verbatim>\<open>[CQ:at,qq=12345]\<close>, the rule with key \<^verbatim>\<open>12345\<close> matches in it, the
  digits are removed from the token and the rule's recall and mute flags are raised.
\<close>

theorem C1_pattern_matches_inside_token:
  "filterMessage up
     [(asc ''12345'',
       \<lparr>enable = True, triggerMute = True, recall = True, replace = False, replaceWord = []\<rparr>)]
     (normalize [\<lparr>etype = asc ''at'', attrs = [asc ''id'' \<mapsto> asc ''12345'']\<rparr>])
   = Inr \<lparr>modifiedMessage = asc ''[CQ:at,qq=]'', needRecall = True, muteCount = 1,
          hasTriggerMuteRule = True, hasValidReplace = True\<rparr>"
  by (simp add: filter_eval parse_eval match_eval)

theorem C1_pattern_matches_inside_token_witness:
  "normalize [\<lparr>etype = asc ''at'', attrs = [asc ''id'' \<mapsto> asc ''12345'']\<rparr>] = asc ''[CQ:at,qq=12345]''
   \<and> filterMessage noCaseTable
     [(asc ''12345'',
       \<lparr>enable = True, triggerMute = True, recall = True, replace = False, replaceWord = []\<rparr>)]
     (normalize [\<lparr>etype = asc ''at'', attrs = [asc ''id'' \<mapsto> asc ''12345'']\<rparr>])
   = Inr \<lparr>modifiedMessage = asc ''[CQ:at,qq=]'', needRecall = True, muteCount = 1,
          hasTriggerMuteRule = True, hasValidReplace = True\<rparr>"
  using C1_pattern_matches_inside_token [of noCaseTable]
  by (simp add: normalize_def elementText_def attr_def asc_def)

section \<open>Rules in policy order\<close>

text \<open>
  Claim C2, as amended. With the rules \<^verbatim>\<open>a+\<close> (replace by \<^verbatim>\<open>X\<close>) and then \<^verbatim>\<open>X\<close> (recall,
  replace unset), the text \<^verbatim>\<open>aaa\<close> first becomes \<^verbatim>\<open>X\<close>; the second rule matches that
  \<^verbatim>\<open>X\<close> and, like every matching rule, rewrites the text: with \<open>replace\<close> unset the match
  is replaced by the empty string. The result is the empty text with recall requested. In
  the other order the second rule finds nothing and the result is \<^verbatim>\<open>X\<close> without recall:
  the outcome depends on the order.
\<close>

theorem C2_rules_in_order:
  "filterMessage up
     [(asc ''a+'', \<lparr>enable = True, triggerMute = False, recall = False, replace = True, replaceWord = asc ''X''\<rparr>),
      (asc ''X'', \<lparr>enable = True, triggerMute = False, recall = True, replace = False, replaceWord = []\<rparr>)]
     (asc ''aaa'')
   = Inr \<lparr>modifiedMessage = [], needRecall = True, muteCount = 0,
          hasTriggerMuteRule = False, hasValidReplace = True\<rparr>
   \<and> filterMessage up
     [(asc ''X'', \<lparr>enable = True, triggerMute = False, recall = True, replace = False, replaceWord = []\<rparr>),
      (asc ''a+'', \<lparr>enable = True, triggerMute = False, recall = False, replace = True, replaceWord = asc ''X''\<rparr>)]
     (asc ''aaa'')
   = Inr \<lparr>modifiedMessage = asc ''X'', needRecall = False, muteCount = 0,
          hasTriggerMuteRule = False, hasValidReplace = True\<rparr>"
  by (simp add: filter_eval parse_eval match_eval)

theorem C2_rules_in_order_witness:
  "filterMessage noCaseTable
     [(asc ''a+'', \<lparr>enable = True, triggerMute = False, recall = False, replace = True, replaceWord = asc ''X''\<rparr>),
      (asc ''X'', \<lparr>enable = True, triggerMute = False, recall = True, replace = False, replaceWord = []\<rparr>)]
     (asc ''aaa'')
   = Inr \<lparr>modifiedMessage = [], needRecall = True, muteCount = 0,
          hasTriggerMuteRule = False, hasValidReplace = True\<rparr>"
  using C2_rules_in_order [of noCaseTable] by simp

text \<open>The claim as it was stated (modified text \<^verbatim>\<open>X\<close>, recall requested) fails at its own input.\<close>

theorem C2_counterexample:
  "\<not> (case filterMessage noCaseTable
         [(asc ''a+'', \<lparr>enable = True, triggerMute = False, recall = False, replace = True, replaceWord = asc ''X''\<rparr>),
          (asc ''X'', \<lparr>enable = True, triggerMute = False, recall = True, replace = False, replaceWord = []\<rparr>)]
         (asc ''aaa'') of
        Inl err \<Rightarrow> False
      | Inr fr \<Rightarrow> modifiedMessage fr = asc ''X'' \<and> needRecall fr)"
  by (simp add: filter_eval parse_eval match_eval)

section \<open>White space before a match\<close>

lemma clearCaps_none: "clearCaps [] c = c"
  by (simp add: clearCaps_def)

lemma spaces_step:
  "s < length (input cx) \<Longrightarrow> inClass Space (input cx ! s) \<Longrightarrow>
     run cx Forward spaces (s, c) = run cx Forward spaces (Suc s, c) @ [(s, c)]"
  by (subst run.simps(9)) (simp add: run.simps(4) clearCaps_none)

lemma spaces_stop:
  "\<not> (s < length (input cx) \<and> inClass Space (input cx ! s)) \<Longrightarrow>
     run cx Forward spaces (s, c) = [(s, c)]"
  by (subst run.simps(9)) (auto simp: run.simps(4) clearCaps_none)

lemma spaces_results:
  "(q, c') \<in> set (run cx Forward spaces (s, c)) \<Longrightarrow>
     c' = c \<and> s \<le> q \<and> q \<le> max s (length (input cx))
     \<and> list_all (inClass Space) (slice (input cx) s q)"
proof (induction "length (input cx) - s" arbitrary: s)
  case 0
  then have "run cx Forward spaces (s, c) = [(s, c)]"
    by (intro spaces_stop) simp
  with 0 show ?case by (simp add: slice_def)
next
  case (Suc n)
  show ?case
  proof (cases "inClass Space (input cx ! s)")
    case False
    then have "run cx Forward spaces (s, c) = [(s, c)]"
      by (intro spaces_stop) simp
    with Suc.prems show ?thesis by (simp add: slice_def)
  next
    case True
    from Suc.hyps(2) have lt: "s < length (input cx)" by simp
    from Suc.prems spaces_step[OF lt True]
    consider "(q, c') \<in> set (run cx Forward spaces (Suc s, c))" | "q = s \<and> c' = c"
      by auto
    then show ?thesis
    proof cases
      case 1
      from Suc.hyps(2) have "n = length (input cx) - Suc s" by simp
      from Suc.hyps(1)[OF this 1]
      have ih: "c' = c" "Suc s \<le> q" "q \<le> max (Suc s) (length (input cx))"
          "list_all (inClass Space) (slice (input cx) (Suc s) q)"
        by simp_all
      have "slice (input cx) s q = input cx ! s # slice (input cx) (Suc s) q"
        using lt ih(2)
        by (simp add: slice_def Cons_nth_drop_Suc[symmetric] Suc_diff_le take_Suc_Cons
            del: drop_Suc_Cons)
           (metis Cons_nth_drop_Suc Suc_diff_le diff_Suc_Suc take_Suc_Cons)
      with ih True lt show ?thesis by (simp add: max_def)
    next
      case 2
      then show ?thesis by (simp add: slice_def)
    qed
  qed
qed

lemma run_guarded:
  "run cx Forward (Seq (Look Backward True g) (Seq spaces (Grp k p))) (s, c)
     = (if run cx Backward g (s, c) = []
        then concat (map (run cx Forward (Grp k p)) (run cx Forward spaces (s, c)))
        else [])"
  by (simp add: run.simps(6) run.simps(13) split: list.splits)

lemma guarded_absorbs:
  assumes "s < length (input cx)" "inClass Space (input cx ! s)"
    and "run cx Backward g (s, c) = []"
    and "run cx Forward (Seq (Look Backward True g) (Seq spaces (Grp k p))) (Suc s, c) \<noteq> []"
  shows "run cx Forward (Seq (Look Backward True g) (Seq spaces (Grp k p))) (s, c) \<noteq> []"
proof -
  from assms(4) have "concat (map (run cx Forward (Grp k p)) (run cx Forward spaces (Suc s, c))) \<noteq> []"
    unfolding run_guarded by (simp split: if_splits)
  then show ?thesis
    unfolding run_guarded spaces_step[OF assms(1,2)] using assms(3) by simp
qed

lemma execFrom_least:
  "execFrom cx r i = Some (s, y) \<Longrightarrow>
     i \<le> s \<and> s \<le> length (input cx)
     \<and> (\<exists>ys. run cx Forward r (s, noCaps) = y # ys)
     \<and> (\<forall>j. i \<le> j \<and> j < s \<longrightarrow> run cx Forward r (j, noCaps) = [])"
proof (induction cx r i rule: execFrom.induct)
  case (1 cx r i)
  show ?case
  proof (cases "run cx Forward r (i, noCaps)")
    case Nil
    from 1(2) have le: "i \<le> length (input cx)"
      by (subst (asm) execFrom.simps) (simp split: if_splits)
    with 1(2) Nil have "execFrom cx r (Suc i) = Some (s, y)"
      by (subst (asm) execFrom.simps) simp
    from 1(1)[OF _ Nil this] le
    have ih: "Suc i \<le> s" "s \<le> length (input cx)" "\<exists>ys. run cx Forward r (s, noCaps) = y # ys"
        "\<forall>j. Suc i \<le> j \<and> j < s \<longrightarrow> run cx Forward r (j, noCaps) = []"
      by simp_all
    have "run cx Forward r (j, noCaps) = []" if "i \<le> j" "j < s" for j
      using that ih(4) Nil by (cases "j = i") auto
    with ih show ?thesis by simp
  next
    case (Cons z zs)
    with 1(2) have "s = i \<and> y = z \<and> i \<le> length (input cx)"
      by (subst (asm) execFrom.simps) (auto split: if_splits)
    with Cons show ?thesis by auto
  qed
qed

text \<open>The keys made of plain characters give expressions of this shape.\<close>

lemma lex_plain:
  "list_all plainChar w \<Longrightarrow>
     lex (w @ rest) = (case lex rest of Inl err \<Rightarrow> Inl err
                       | Inr ts \<Rightarrow> Inr (map (\<lambda>c. TAtom (Chr c)) w @ ts))"
proof (induction w)
  case Nil
  then show ?case by (simp split: sum.splits)
next
  case (Cons c w)
  then have p: "plainChar c" and ih: "lex (w @ rest) = (case lex rest of Inl err \<Rightarrow> Inl err
                       | Inr ts \<Rightarrow> Inr (map (\<lambda>c. TAtom (Chr c)) w @ ts))"
    by simp_all
  from p show ?case
    by (simp add: lex.simps(2)[of c] ih plainChar_def asc_def split: sum.splits)
qed

lemma parse_atoms:
  "parse (map (\<lambda>c. TAtom (Chr c)) w @ toks) stack (k, idx, done, terms) n
     = parse toks stack (k, idx, done, rev (map (\<lambda>c. (Chr c, Plain)) w) @ terms) n"
  by (induction w arbitrary: terms) simp_all

lemma groupOpen_plain:
  "list_all plainChar w \<Longrightarrow> groupOpen (w @ [41]) = Inr (Capture, 0)"
  by (cases w) (simp_all add: groupOpen_def asc_def plainChar_def)

lemma literal_rule:
  assumes "list_all plainChar w"
  shows "newRegExp (ruleSource w) True True = Inr (ruleRegExp (seqs (map Chr w)))"
proof -
  have l: "lex (w @ [41]) = Inr (map (\<lambda>c. TAtom (Chr c)) w @ [TClose])"
    by (simp add: lex_plain[OF assms] lex.simps)
  have m: "map fst (rev (map (\<lambda>c. (Chr c, Plain)) w)) = rev (map Chr w)"
    by (simp add: rev_map o_def)
  have g: "groupOpen (63 # 60 # 33 # cs) = Inr (Around Backward True, 3)" for cs
    by (simp add: groupOpen_def asc_def)
  have c: "groupOpen (w @ [41]) = Inr (Capture, 0)"
    by (rule groupOpen_plain[OF assms])
  show ?thesis
    by (simp add: newRegExp_def ruleSource_def asc_def lex.simps(2) escapeAtom_def g c l
        parse_atoms disjunction_def quantifier_def ruleRegExp_def lookBehindBody_def m)
qed

text \<open>
  A text without a dollar sign gives the look-behind nothing to find: there the
  expression of a rule matches wherever \<^verbatim>\<open>\s*(pattern)\<close> does, inside markup tokens too.
\<close>

lemma canonicalize_dollar:
  "canonicalize cx ch = canonicalize cx 36 \<Longrightarrow> ch = 36"
  by (auto simp: canonicalize_def asciiUpper_def split: if_splits option.splits)

lemma run_dollar_absent:
  assumes "36 \<notin> set (input cx)"
  shows "run cx d (Chr 36) x = []"
proof -
  obtain e cap where x: "x = (e, cap)" by (cases x)
  have no: "input cx ! k \<noteq> 36" if "k < length (input cx)" for k
    using assms that by (metis nth_mem)
  show ?thesis
  proof (cases d)
    case Forward
    have "\<not> (e < length (input cx) \<and> canonicalize cx (input cx ! e) = canonicalize cx 36)"
      using no canonicalize_dollar by blast
    then show ?thesis by (simp add: x Forward run.simps(2))
  next
    case Backward
    have "\<not> (0 < e \<and> e - 1 < length (input cx) \<and> canonicalize cx (input cx ! (e - 1)) = canonicalize cx 36)"
      using no canonicalize_dollar by blast
    then show ?thesis by (simp add: x Backward run.simps(2))
  qed
qed

lemma lookBehind_never_blocks:
  assumes "36 \<notin> set (input cx)"
  shows "run cx Backward lookBehindBody (e, cap) = []"
  by (simp add: lookBehindBody_def run.simps(7) run_dollar_absent[OF assms])

lemma guard_excludes_nothing:
  "36 \<notin> set text \<Longrightarrow>
     run (matchContext up (ruleRegExp p) text) Forward (body (ruleRegExp p)) (s, c)
       = concat (map (run (matchContext up (ruleRegExp p) text) Forward (Grp 1 p))
                     (run (matchContext up (ruleRegExp p) text) Forward spaces (s, c)))"
  by (simp add: ruleRegExp_def run_guarded lookBehind_never_blocks matchContext_def)

text \<open>
  A key with a group of its own stays inside the group of line 140 as well: the key
  \<^verbatim>\<open>(foo|bar)\<close> compiles to an expression of the same shape with two groups, and the
  blank before its match is consumed.
\<close>

lemma fooOrBar_parse:
  "newRegExp (ruleSource (asc ''(foo|bar)'')) True True = Inr fooOrBar"
  by (simp add: parse_eval fooOrBar_def fooOrBarKey_def lookBehindBody_def)

lemma fooOrBar_example:
  "filterMessage up
     [(asc ''(foo|bar)'',
       \<lparr>enable = True, triggerMute = False, recall = False, replace = False, replaceWord = []\<rparr>)]
     (asc ''x bar'')
   = Inr \<lparr>modifiedMessage = asc ''x'', needRecall = False, muteCount = 0,
          hasTriggerMuteRule = False, hasValidReplace = True\<rparr>"
  by (simp add: filter_eval parse_eval match_eval)

text \<open>
  Claim C10, as amended. For a rule whose key stays inside the group of line 140 (the
  expression compiled from it is the look-behind, the white space and the first group
  around what the key parses to, whatever groups the key has of its own), every match
  found consists of a run of white space followed by a match of the pattern, and the
  whole of it is what \<open>replace\<close> rewrites. White space directly before the start of a
  match found after the start of the search is left in the text only where the
  look-behind forbids a match to start. For instance \<^verbatim>\<open>foo bar\<close> with the pattern
  \<^verbatim>\<open>bar\<close> and \<open>replace\<close> unset becomes \<^verbatim>\<open>foo\<close>.
\<close>

theorem C10_match_takes_preceding_whitespace:
  assumes "newRegExp (ruleSource pattern) True True = Inr re"
    and "body re = Seq (Look Backward True lookBehindBody) (Seq spaces (Grp 1 p))"
    and "execFrom (matchContext up re text) (body re) i = Some (s, e, cap)"
  shows "(\<exists>q. s \<le> q \<and> q \<le> e \<and> list_all (inClass Space) (slice text s q)
            \<and> (e, cap) \<in> set (run (matchContext up re text) Forward (Grp 1 p) (q, noCaps)))
         \<and> (i < s \<and> inClass Space (text ! (s - 1)) \<longrightarrow>
              run (matchContext up re text) Backward lookBehindBody (s - 1, noCaps) \<noteq> [])
         \<and> (i = 0 \<longrightarrow>
              stringReplace up re text template
                = take s text @ getSubstitution text s e cap (ngroups re) template
                  @ assemble text (ngroups re) template e
                      (matchAll (matchContext up re text) (body re)
                         (if e = s then e + 1 else e)))
         \<and> filterMessage up
              [(asc ''bar'',
                \<lparr>enable = True, triggerMute = False, recall = False, replace = False, replaceWord = []\<rparr>)]
              (asc ''foo bar'')
            = Inr \<lparr>modifiedMessage = asc ''foo'', needRecall = False, muteCount = 0,
                   hasTriggerMuteRule = False, hasValidReplace = True\<rparr>"
proof -
  let ?cx = "matchContext up re text"
  let ?shape = "Seq (Look Backward True lookBehindBody) (Seq spaces (Grp 1 p))"
  note shape = assms(2)
  have inp: "input ?cx = text" by (simp add: matchContext_def)
  note least = execFrom_least[OF assms(3)]
  from least obtain ys where hit: "run ?cx Forward (body re) (s, noCaps) = (e, cap) # ys"
    by auto
  have first: "\<exists>q. s \<le> q \<and> q \<le> e \<and> list_all (inClass Space) (slice text s q)
            \<and> (e, cap) \<in> set (run ?cx Forward (Grp 1 p) (q, noCaps))"
  proof -
    from hit have "(e, cap) \<in> set (run ?cx Forward (body re) (s, noCaps))" by simp
    then obtain z where z: "z \<in> set (run ?cx Forward spaces (s, noCaps))"
        "(e, cap) \<in> set (run ?cx Forward (Grp 1 p) z)"
      unfolding shape run_guarded by (auto split: if_splits)
    obtain q c' where zq: "z = (q, c')" by (cases z)
    from spaces_results[of q c' ?cx s noCaps] z(1) zq
    have sp: "c' = noCaps" "s \<le> q" "list_all (inClass Space) (slice text s q)"
      by (simp_all add: inp)
    from run_reaches[of e cap ?cx Forward "Grp 1 p" "(q, noCaps)"] z(2) zq sp(1)
    have "q \<le> e" by simp
    with sp z(2) zq show ?thesis by auto
  qed
  have second: "run ?cx Backward lookBehindBody (s - 1, noCaps) \<noteq> []"
    if "i < s" "inClass Space (text ! (s - 1))"
  proof
    assume free: "run ?cx Backward lookBehindBody (s - 1, noCaps) = []"
    from that(1) least have lt: "s - 1 < length (input ?cx)" and ge: "i \<le> s - 1" by auto
    from that(1) have suc: "Suc (s - 1) = s" by simp
    have sp: "inClass Space (input ?cx ! (s - 1))"
      using that(2) by (simp only: inp)
    have hit0: "run ?cx Forward (body re) (Suc (s - 1), noCaps) \<noteq> []"
      using hit by (simp only: suc) simp
    have hit': "run ?cx Forward ?shape (Suc (s - 1), noCaps) \<noteq> []"
      using hit0 unfolding shape .
    have "run ?cx Forward ?shape (s - 1, noCaps) \<noteq> []"
      by (rule guarded_absorbs[OF lt sp free hit'])
    then have "run ?cx Forward (body re) (s - 1, noCaps) \<noteq> []"
      unfolding shape .
    moreover from least ge that(1) have "run ?cx Forward (body re) (s - 1, noCaps) = []"
      by simp
    ultimately show False by simp
  qed
  have fourth: "stringReplace up re text template
                = take s text @ getSubstitution text s e cap (ngroups re) template
                  @ assemble text (ngroups re) template e
                      (matchAll ?cx (body re) (if e = s then e + 1 else e))"
    if "i = 0"
  proof -
    have "matchAll ?cx (body re) 0
            = (s, e, cap) # matchAll ?cx (body re) (if e = s then e + 1 else e)"
      using assms(3) that by (subst matchAll.simps) simp
    then show ?thesis
      by (simp add: stringReplace_def slice_def)
  qed
  have fifth: "filterMessage up
              [(asc ''bar'',
                \<lparr>enable = True, triggerMute = False, recall = False, replace = False, replaceWord = []\<rparr>)]
              (asc ''foo bar'')
            = Inr \<lparr>modifiedMessage = asc ''foo'', needRecall = False, muteCount = 0,
                   hasTriggerMuteRule = False, hasValidReplace = True\<rparr>"
    by (simp add: filter_eval parse_eval match_eval)
  from first second fourth fifth show ?thesis by blast
qed

text \<open>
  The key \<^verbatim>\<open>(foo|bar)\<close> has a group of its own. In \<^verbatim>\<open>$CQ:a$CQ bar\<close> its match starts at
  index 9, after the space at index 8, because the look-behind succeeds at index 8.
\<close>

theorem C10_match_takes_preceding_whitespace_witness:
  "newRegExp (ruleSource (asc ''(foo|bar)'')) True True = Inr fooOrBar
   \<and> body fooOrBar = Seq (Look Backward True lookBehindBody) (Seq spaces (Grp 1 fooOrBarKey))
   \<and> map_option (\<lambda>(s, e, cap). (s, e, cap 1, cap 2))
        (execFrom (matchContext noCaseTable fooOrBar (asc ''$CQ:a$CQ bar'')) (body fooOrBar) 0)
       = Some (9, 12, Some (9, 12), Some (9, 12))
   \<and> inClass Space (asc ''$CQ:a$CQ bar'' ! 8)
   \<and> run (matchContext noCaseTable fooOrBar (asc ''$CQ:a$CQ bar''))
        Backward lookBehindBody (8, noCaps) \<noteq> []"
proof -
  let ?text = "asc ''$CQ:a$CQ bar''"
  have h1: "newRegExp (ruleSource (asc ''(foo|bar)'')) True True = Inr fooOrBar"
    by (rule fooOrBar_parse)
  have h2: "body fooOrBar = Seq (Look Backward True lookBehindBody) (Seq spaces (Grp 1 fooOrBarKey))"
    by (simp add: fooOrBar_def)
  have h3: "map_option (\<lambda>(s, e, cap). (s, e, cap 1, cap 2))
              (execFrom (matchContext noCaseTable fooOrBar ?text) (body fooOrBar) 0)
              = Some (9, 12, Some (9, 12), Some (9, 12))"
    by (simp add: fooOrBar_def fooOrBarKey_def lookBehindBody_def match_eval asc_def)
  then obtain cap where
    h4: "execFrom (matchContext noCaseTable fooOrBar ?text) (body fooOrBar) 0 = Some (9, 12, cap)"
    by (cases "execFrom (matchContext noCaseTable fooOrBar ?text) (body fooOrBar) 0") auto
  have sp: "inClass Space (?text ! 8)"
    by (simp add: asc_def whiteSpace_def)
  have "(0::nat) < 9 \<and> inClass Space (?text ! (9 - 1)) \<longrightarrow>
          run (matchContext noCaseTable fooOrBar ?text) Backward lookBehindBody (9 - 1, noCaps) \<noteq> []"
    by (rule C10_match_takes_preceding_whitespace
          [OF h1 h2 h4, where template = "[]", THEN conjunct2, THEN conjunct1])
  with sp
  have "run (matchContext noCaseTable fooOrBar ?text) Backward lookBehindBody (8, noCaps) \<noteq> []"
    by simp
  with h1 h2 h3 sp show ?thesis by simp
qed

text \<open>
  The claim as it was stated (the white space directly before the pattern is always
  consumed) fails for that text: the space before \<^verbatim>\<open>bar\<close> stays.
\<close>

theorem C10_counterexample:
  "filterMessage noCaseTable
     [(asc ''bar'',
       \<lparr>enable = True, triggerMute = False, recall = False, replace = False, replaceWord = []\<rparr>)]
     (asc ''$CQ:a$CQ bar'')
   = Inr \<lparr>modifiedMessage = asc ''$CQ:a$CQ '', needRecall = False, muteCount = 0,
          hasTriggerMuteRule = False, hasValidReplace = True\<rparr>"
  by (simp add: filter_eval parse_eval match_eval)

section \<open>Escaping the corrected text\<close>

lemma cqPattern_never_matches:
  "run (matchContext up cqPattern s) Forward (body cqPattern) (q, cap) = []"
  by (simp add: cqPattern_def matchContext_def run.simps)

lemma splitLoop_no_match:
  assumes "\<And>q. run cx Forward (body re) (q, noCaps) = []"
  shows "splitLoop cx re p q = [Some (drop p (input cx))]"
proof (induction "length (input cx) - q" arbitrary: q)
  case 0
  then show ?case by (subst splitLoop.simps) simp
next
  case (Suc n)
  then have "splitLoop cx re p (Suc q) = [Some (drop p (input cx))]" by simp
  then show ?case using Suc.hyps(2) by (subst splitLoop.simps) (simp add: assms)
qed

lemma stringSplit_cqPattern: "stringSplit up cqPattern s = [Some s]"
proof (cases "s = []")
  case True
  then show ?thesis by (simp add: stringSplit_def cqPattern_never_matches)
next
  case False
  have "splitLoop (matchContext up cqPattern s) cqPattern 0 0
          = [Some (drop 0 (input (matchContext up cqPattern s)))]"
    by (rule splitLoop_no_match) (rule cqPattern_never_matches)
  with False show ?thesis by (simp add: stringSplit_def matchContext_def)
qed

lemma template_amp:
  "getSubstitution str position tailPos cap m (asc ''&amp;'') = asc ''&amp;''"
  by (simp add: asc_def)

lemma run_amp:
  "run (matchContext up ampPattern t) Forward (Chr 38) (i, cap)
     = (if i < length t \<and> t ! i = 38 then [(i + 1, cap)] else [])"
  by (simp add: run.simps matchContext_def ampPattern_def canonicalize_def)

lemma execFrom_amp_hit:
  "i < length t \<Longrightarrow> t ! i = 38 \<Longrightarrow>
     execFrom (matchContext up ampPattern t) (Chr 38) i = Some (i, i + 1, noCaps)"
  by (subst execFrom.simps) (simp add: run_amp, simp add: matchContext_def)

lemma execFrom_amp_miss:
  "i < length t \<Longrightarrow> t ! i \<noteq> 38 \<Longrightarrow>
     execFrom (matchContext up ampPattern t) (Chr 38) i
       = execFrom (matchContext up ampPattern t) (Chr 38) (Suc i)"
  by (subst execFrom.simps) (simp add: run_amp, simp add: matchContext_def)

lemma execFrom_amp_end:
  "execFrom (matchContext up ampPattern t) (Chr 38) (length t) = None"
  by (subst execFrom.simps, simp add: run_amp, subst execFrom.simps, simp add: matchContext_def)

lemma matchAll_amp_hit:
  "i < length t \<Longrightarrow> t ! i = 38 \<Longrightarrow>
     matchAll (matchContext up ampPattern t) (Chr 38) i
       = (i, i + 1, noCaps) # matchAll (matchContext up ampPattern t) (Chr 38) (Suc i)"
  by (subst matchAll.simps) (simp add: execFrom_amp_hit)

lemma matchAll_amp_miss:
  "i < length t \<Longrightarrow> t ! i \<noteq> 38 \<Longrightarrow>
     matchAll (matchContext up ampPattern t) (Chr 38) i
       = matchAll (matchContext up ampPattern t) (Chr 38) (Suc i)"
  by (subst matchAll.simps, subst (2) matchAll.simps) (simp add: execFrom_amp_miss)

lemma matchAll_amp_end:
  "matchAll (matchContext up ampPattern t) (Chr 38) (length t) = []"
  by (subst matchAll.simps) (simp add: execFrom_amp_end)

lemma assemble_amp:
  "i \<le> length t \<Longrightarrow> nsp \<le> i \<Longrightarrow>
     assemble t 0 (asc ''&amp;'') nsp (matchAll (matchContext up ampPattern t) (Chr 38) i)
       = slice t nsp i @ ampEscaped (drop i t)"
proof (induction "length t - i" arbitrary: i nsp)
  case 0
  then have "i = length t" by simp
  then show ?case
    using 0 by (simp add: matchAll_amp_end slice_def ampEscaped_def)
next
  case (Suc n)
  then have lt: "i < length t" by simp
  then have d: "drop i t = t ! i # drop (Suc i) t"
    by (simp add: Cons_nth_drop_Suc)
  show ?case
  proof (cases "t ! i = 38")
    case True
    have "assemble t 0 (asc ''&amp;'') (Suc i) (matchAll (matchContext up ampPattern t) (Chr 38) (Suc i))
            = slice t (Suc i) (Suc i) @ ampEscaped (drop (Suc i) t)"
      using Suc.hyps(2) lt by (intro Suc.hyps(1)) auto
    then show ?thesis
      using True lt Suc.prems(2)
      by (simp add: matchAll_amp_hit template_amp d ampEscaped_def slice_def)
  next
    case False
    have "assemble t 0 (asc ''&amp;'') nsp (matchAll (matchContext up ampPattern t) (Chr 38) (Suc i))
            = slice t nsp (Suc i) @ ampEscaped (drop (Suc i) t)"
      using Suc.hyps(2) lt Suc.prems(2) by (intro Suc.hyps(1)) auto
    moreover have "slice t nsp (Suc i) = slice t nsp i @ [t ! i]"
      using lt Suc.prems(2)
      by (simp add: slice_def Suc_diff_le take_Suc_conv_app_nth)
    ultimately show ?thesis
      using False lt by (simp add: matchAll_amp_miss d ampEscaped_def)
  qed
qed

lemma stringReplace_amp:
  "stringReplace up ampPattern t (asc ''&amp;'') = ampEscaped t"
  using assemble_amp[of 0 t 0 up] by (simp add: stringReplace_def ampPattern_def slice_def)

lemma escapedText_all: "escapedText up modified = Some (ampEscaped modified)"
  by (simp add: escapedText_def stringSplit_cqPattern stringReplace_amp)

text \<open>
  Claim C3. The escaping step should leave every markup token as it is and replace
  \<^verbatim>\<open>&\<close> outside the tokens only. The expression of line 221 starts with \<^verbatim>\<open>$\<close>, which
  without the \<open>m\<close> flag holds at the end of the input only, and asks for more characters
  after it: it matches nowhere. So \<open>split\<close> returns the whole text as its single piece,
  at the even index 0, and every ampersand of the text is replaced, those inside markup
  tokens included.
\<close>

theorem C3_escape_rewrites_tokens:
  "escapedText up modified = Some (ampEscaped modified)"
  by (rule escapedText_all)

text \<open>The token of an image whose file name contains an ampersand is rewritten.\<close>

theorem C3_escape_rewrites_tokens_witness:
  "escapedText noCaseTable (asc ''[CQ:image,file=a&b]'') = Some (asc ''[CQ:image,file=a&amp;b]'')"
  using C3_escape_rewrites_tokens [of noCaseTable "asc ''[CQ:image,file=a&b]''"]
  by (simp add: ampEscaped_def asc_def)

text \<open>
  The same from end to end: the text \<^verbatim>\<open>spam\<close> followed by that image, in a group whose
  rule replaces \<^verbatim>\<open>spam\<close>; the alert sent carries the rewritten token.
\<close>

lemma escaped_alert_example:
  "middleware up
     [\<lparr>groupId = asc ''10000'', groupEnable = True,
       muteConfig = \<lparr>muteEnable = False, threshold = 3, duration = 600\<rparr>,
       blockingWords = [(asc ''spam'',
          \<lparr>enable = True, triggerMute = False, recall = False, replace = True, replaceWord = asc ''***''\<rparr>)],
       customMessage = [], alertContent = asc ''Warning!'', correctPrefix = asc ''Fixed: ''\<rparr>]
     (outcomes True True) 0
     \<lparr>onebot = True, subtype = asc ''group'', guildId = asc ''10000'', userId = asc ''42'',
      messageId = asc ''1'', quoteId = None,
      elements = [\<lparr>etype = asc ''text'', attrs = [asc ''content'' \<mapsto> asc ''spam'']\<rparr>,
                  \<lparr>etype = asc ''image'', attrs = [asc ''file'' \<mapsto> asc ''a&b'']\<rparr>]\<rparr>
     emptyTracker
   = Some ([SendGroupMsg (asc ''10000'')
              (asc ''[CQ:at,qq=42] Warning!\<newline>Fixed: ***[CQ:image,file=a&amp;b]\<newline>''),
            Next], emptyTracker)"
  by (simp add: middleware_def handleMsg_def configDict_def outcomes_def filter_eval parse_eval match_eval
      moderate_def alertBranch_def finalMessage_def mention_def escapedText_all
      ampEscaped_def)

section \<open>The violation counter\<close>

lemma registerViolation_result:
  "registerViolation k m thr now st = (rcd, shouldMute, st') \<Longrightarrow>
     count rcd = countOf st k + m
     \<and> shouldMute = (thr \<le> count rcd)
     \<and> violationRecords st' k = Some rcd"
  by (auto simp: registerViolation_def countOf_def Let_def split: option.splits)

lemma registerViolation_fresh:
  "registerViolation k m thr now st = (rcd, shouldMute, st') \<Longrightarrow>
     violationRecords st k = None \<Longrightarrow>
     timer rcd = nextTimer st \<and> timers st' (timer rcd) = Some (k, now + 24 * 3600 * 1000)"
  by (auto simp: registerViolation_def Let_def split: option.splits)

lemma clearViolation_result:
  "violationRecords (clearViolation rcd k st) k = None
   \<and> timers (clearViolation rcd k st) (timer rcd) = None
   \<and> countOf (clearViolation rcd k st) k = 0"
  by (simp add: clearViolation_def countOf_def)

lemma registerAll_count:
  "countOf (registerAll k thr nows st) k = countOf st k + length nows"
proof (induction nows arbitrary: st)
  case Nil
  then show ?case by (simp add: registerAll_def)
next
  case (Cons now nows)
  obtain rcd sm st1 where r: "registerViolation k 1 thr now st = (rcd, sm, st1)"
    by (cases "registerViolation k 1 thr now st") auto
  have "registerAll k thr (now # nows) st = registerAll k thr nows st1"
    using r by (simp add: registerAll_def)
  moreover have "countOf st1 k = countOf st k + 1"
    using registerViolation_result[OF r] by (simp add: countOf_def)
  ultimately show ?case using Cons[of st1] by simp
qed

lemma shouldMute_iff:
  "registerViolation k m thr now st = (rcd, sm, st1) \<Longrightarrow> sm = (thr \<le> countOf st k + m)"
  using registerViolation_result[of k m thr now st rcd sm st1] by simp

text \<open>
  Claim C8. For one key with threshold 3 and nothing on record at the start, the
  registration that follows \<open>length nows\<close> earlier ones (the N-th, with
  \<open>N = length nows + 1\<close>) yields count N, and the threshold is reported reached exactly
  when \<open>3 \<le> N\<close>. After the record has been cleared, the next registration yields count
  1 and does not report the threshold.
\<close>

theorem C8_register_counts:
  assumes "violationRecords st k = None"
    and "registerViolation k 1 3 now (registerAll k 3 nows st) = (rcd, shouldMute, st')"
    and "registerViolation k 1 3 now' (clearViolation rcd k st') = (rcd', shouldMute', st'')"
  shows "count rcd = length nows + 1 \<and> shouldMute = (3 \<le> length nows + 1)
         \<and> count rcd' = 1 \<and> \<not> shouldMute'"
proof -
  have "countOf st k = 0" using assms(1) by (simp add: countOf_def)
  then have "countOf (registerAll k 3 nows st) k = length nows"
    by (simp add: registerAll_count)
  with registerViolation_result[OF assms(2)]
  have a: "count rcd = length nows + 1" "shouldMute = (3 \<le> length nows + 1)" by auto
  from registerViolation_result[OF assms(3)] clearViolation_result[of rcd k st']
  have b: "count rcd' = 1" "\<not> shouldMute'" by auto
  from a b show ?thesis by simp
qed

theorem C8_register_counts_witness:
  "count (fst (registerViolation (asc ''10000:42'') 1 3 20
                 (registerAll (asc ''10000:42'') 3 [0, 10] emptyTracker))) = 3
   \<and> fst (snd (registerViolation (asc ''10000:42'') 1 3 20
                 (registerAll (asc ''10000:42'') 3 [0, 10] emptyTracker)))
   \<and> count (fst (registerViolation (asc ''10000:42'') 1 3 30
                 (clearViolation
                    (fst (registerViolation (asc ''10000:42'') 1 3 20
                            (registerAll (asc ''10000:42'') 3 [0, 10] emptyTracker)))
                    (asc ''10000:42'')
                    (snd (snd (registerViolation (asc ''10000:42'') 1 3 20
                            (registerAll (asc ''10000:42'') 3 [0, 10] emptyTracker))))))) = 1"
proof -
  let ?k = "asc ''10000:42''"
  have none: "violationRecords emptyTracker ?k = None"
    by (simp add: emptyTracker_def)
  obtain rcd sm st' where
    r: "registerViolation ?k 1 3 20 (registerAll ?k 3 [0, 10] emptyTracker) = (rcd, sm, st')"
    by (cases "registerViolation ?k 1 3 20 (registerAll ?k 3 [0, 10] emptyTracker)") auto
  obtain rcd' sm' st'' where
    r': "registerViolation ?k 1 3 30 (clearViolation rcd ?k st') = (rcd', sm', st'')"
    by (cases "registerViolation ?k 1 3 30 (clearViolation rcd ?k st')") auto
  from C8_register_counts [OF none r r']
  have "count rcd = 3" "sm" "count rcd' = 1" by simp_all
  with r r' show ?thesis by simp
qed

section \<open>One violation per message\<close>

lemma applyRule_muteCount:
  "applyRule up fr entry = Inr fr' \<Longrightarrow> muteCount fr = (if hasTriggerMuteRule fr then 1 else 0) \<Longrightarrow>
     muteCount fr' = (if hasTriggerMuteRule fr' then 1 else 0)"
  by (cases entry) (auto simp: applyRule_def Let_def split: if_splits sum.splits)

lemma filterRules_muteCount:
  "filterRules up entries fr = Inr fr' \<Longrightarrow> muteCount fr = (if hasTriggerMuteRule fr then 1 else 0) \<Longrightarrow>
     muteCount fr' = (if hasTriggerMuteRule fr' then 1 else 0)"
proof (induction entries arbitrary: fr)
  case Nil
  then show ?case by simp
next
  case (Cons entry entries)
  from Cons.prems(1) obtain fr1 where s: "applyRule up fr entry = Inr fr1"
      "filterRules up entries fr1 = Inr fr'"
    by (auto split: sum.splits)
  from applyRule_muteCount[OF s(1) Cons.prems(2)] Cons.IH[OF s(2)] show ?case by simp
qed

lemma filterMessage_muteCount:
  "filterMessage up entries message = Inr fr \<Longrightarrow> muteCount fr = (if hasTriggerMuteRule fr then 1 else 0)"
  unfolding filterMessage_def
  by (erule filterRules_muteCount) (simp add: initialResult_def)

lemma moderate_mute:
  assumes "muteEnable (muteConfig cfg)" "hasTriggerMuteRule fr"
    and "registerViolation (keyOf meta) (muteCount fr) (threshold (muteConfig cfg)) now st = (rcd, True, st1)"
  shows "moderate up env now cfg meta message fr st = muteBranch env cfg meta message fr rcd st1"
  using assms by (simp add: moderate_def Let_def)

lemma moderate_no_mute:
  assumes "muteEnable (muteConfig cfg)" "hasTriggerMuteRule fr"
    and "registerViolation (keyOf meta) (muteCount fr) (threshold (muteConfig cfg)) now st = (rcd, False, st1)"
  shows "snd (moderate up env now cfg meta message fr st) = st1"
  using assms by (simp add: moderate_def Let_def)

lemma sample_filter:
  "filterMessage up (blockingWords (sampleConfig thr alert)) (asc ''foo bar'') = Inr sampleResult"
  by (simp add: sampleConfig_def sampleRule_def sampleResult_def filter_eval parse_eval match_eval)

text \<open>
  Claim C9. A message that reaches the violation counter (the mute policy is enabled and
  at least one mute-triggering rule matched) is registered with \<open>muteCount = 1\<close>, however
  many such rules matched: the count on record for the sender's key grows by exactly 1,
  and that is the count in the state the handler leaves when the threshold is not yet
  reached.
\<close>

theorem C9_one_violation_per_message:
  assumes "filterMessage up (blockingWords cfg) message = Inr fr"
    and "muteEnable (muteConfig cfg)" "hasTriggerMuteRule fr"
  shows "muteCount fr = 1
         \<and> count (fst (registerViolation (keyOf meta) (muteCount fr) (threshold (muteConfig cfg)) now st))
             = countOf st (keyOf meta) + 1
         \<and> (countOf st (keyOf meta) + 1 < threshold (muteConfig cfg) \<longrightarrow>
              countOf (snd (moderate up env now cfg meta message fr st)) (keyOf meta)
                = countOf st (keyOf meta) + 1)"
proof -
  have one: "muteCount fr = 1"
    using filterMessage_muteCount[OF assms(1)] assms(3) by simp
  obtain rcd sm st1 where
    r: "registerViolation (keyOf meta) (muteCount fr) (threshold (muteConfig cfg)) now st = (rcd, sm, st1)"
    by (cases "registerViolation (keyOf meta) (muteCount fr) (threshold (muteConfig cfg)) now st") auto
  note res = registerViolation_result[OF r]
  have cnt: "count rcd = countOf st (keyOf meta) + 1" using res one by simp
  have "countOf (snd (moderate up env now cfg meta message fr st)) (keyOf meta)
          = countOf st (keyOf meta) + 1"
    if "countOf st (keyOf meta) + 1 < threshold (muteConfig cfg)"
  proof -
    from that res cnt have "\<not> sm" by simp
    with r have "snd (moderate up env now cfg meta message fr st) = st1"
      using moderate_no_mute[OF assms(2,3), of meta now st rcd st1 up env message] by simp
    with res cnt show ?thesis by (simp add: countOf_def)
  qed
  with one cnt r show ?thesis by simp
qed

text \<open>In the sample group both rules match the text \<^verbatim>\<open>foo bar\<close>; the count goes from 0 to 1.\<close>

theorem C9_one_violation_per_message_witness:
  "filterMessage noCaseTable (blockingWords (sampleConfig 3 (asc ''Warning!''))) (asc ''foo bar'')
     = Inr sampleResult
   \<and> muteCount sampleResult = 1
   \<and> countOf (snd (moderate noCaseTable (outcomes True True) 0 (sampleConfig 3 (asc ''Warning!''))
                       (sampleMeta (asc ''foo bar'')) (asc ''foo bar'') sampleResult emptyTracker))
        (asc ''10000:42'') = 1"
proof -
  have f: "filterMessage noCaseTable (blockingWords (sampleConfig 3 (asc ''Warning!''))) (asc ''foo bar'')
             = Inr sampleResult"
    by (rule sample_filter)
  have e: "muteEnable (muteConfig (sampleConfig 3 (asc ''Warning!'')))"
    by (simp add: sampleConfig_def)
  have t: "hasTriggerMuteRule sampleResult"
    by (simp add: sampleResult_def)
  have k: "keyOf (sampleMeta (asc ''foo bar'')) = asc ''10000:42''"
    by (simp add: sampleMeta_def asc_def)
  have z: "countOf emptyTracker (asc ''10000:42'') = 0"
    by (simp add: countOf_def emptyTracker_def)
  have thr: "threshold (muteConfig (sampleConfig 3 (asc ''Warning!''))) = 3"
    by (simp add: sampleConfig_def)
  show ?thesis
    using C9_one_violation_per_message [OF f e t,
        of "sampleMeta (asc ''foo bar'')" 0 emptyTracker "outcomes True True"]
    unfolding k z thr using f by simp
qed

section \<open>Reaching the threshold\<close>

text \<open>
  Claim C7. When the threshold is reached and the mute call fails, the handler has made
  the mute call (after the recall, if one was requested), logs the failure and does
  nothing more: no message is sent, neither by the mute branch nor by the alert branch.
\<close>

theorem C7_no_alert_when_mute_fails:
  assumes "muteEnable (muteConfig cfg)" "hasTriggerMuteRule fr"
    and "threshold (muteConfig cfg) \<le> countOf st (keyOf meta) + muteCount fr"
    and "\<not> setGroupBanOk env"
  shows "fst (moderate up env now cfg meta message fr st)
           = (if needRecall fr then recallMessage env meta else [])
             @ [SetGroupBan (guildId meta) (userId meta) (duration (muteConfig cfg)), Log MuteFailed]
         \<and> (\<forall>g text. SendGroupMsg g text \<notin> set (fst (moderate up env now cfg meta message fr st)))"
proof -
  obtain rcd sm st1 where
    r: "registerViolation (keyOf meta) (muteCount fr) (threshold (muteConfig cfg)) now st = (rcd, sm, st1)"
    by (cases "registerViolation (keyOf meta) (muteCount fr) (threshold (muteConfig cfg)) now st") auto
  with shouldMute_iff[OF r] assms(3) have r': "registerViolation (keyOf meta) (muteCount fr) (threshold (muteConfig cfg)) now st = (rcd, True, st1)"
    by simp
  have m: "moderate up env now cfg meta message fr st = muteBranch env cfg meta message fr rcd st1"
    by (rule moderate_mute[OF assms(1,2) r'])
  have e: "fst (muteBranch env cfg meta message fr rcd st1)
           = (if needRecall fr then recallMessage env meta else [])
             @ [SetGroupBan (guildId meta) (userId meta) (duration (muteConfig cfg)), Log MuteFailed]"
    using assms(4) by (simp add: muteBranch_def Let_def)
  have "\<forall>g text. SendGroupMsg g text \<notin> set (fst (muteBranch env cfg meta message fr rcd st1))"
    unfolding e by (simp add: recallMessage_def)
  with m e show ?thesis by simp
qed

theorem C7_no_alert_when_mute_fails_witness:
  "fst (moderate noCaseTable (outcomes False True) 0 (sampleConfig 1 (asc ''Warning!''))
          (sampleMeta (asc ''foo bar'')) (asc ''foo bar'') sampleResult emptyTracker)
     = [SetGroupBan (asc ''10000'') (asc ''42'') 600, Log MuteFailed]"
  using C7_no_alert_when_mute_fails [where cfg = "sampleConfig 1 (asc ''Warning!'')"
      and fr = sampleResult and st = emptyTracker and meta = "sampleMeta (asc ''foo bar'')"
      and env = "outcomes False True" and up = noCaseTable and now = 0
      and message = "asc ''foo bar''"]
  by (simp add: sampleConfig_def sampleResult_def sampleMeta_def outcomes_def countOf_def
      emptyTracker_def)

text \<open>
  Lines 200-201 stand after the awaited calls of lines 181 and 194, inside the same \<open>try\<close>
  block. When both calls succeed they are reached: the handler leaves no record for the
  key and no pending timer of that record, and the next qualifying violation is registered
  with count 1.
\<close>

lemma record_cleared_when_notice_sent:
  assumes "muteEnable (muteConfig cfg)" "hasTriggerMuteRule fr"
    and "threshold (muteConfig cfg) \<le> countOf st (keyOf meta) + muteCount fr"
    and "setGroupBanOk env" "sendGroupMsgOk env"
    and "moderate up env now cfg meta message fr st = (effects, st')"
  shows "violationRecords st' (keyOf meta) = None
         \<and> timers st' (timer (fst (registerViolation (keyOf meta) (muteCount fr) (threshold (muteConfig cfg)) now st))) = None
         \<and> count (fst (registerViolation (keyOf meta) 1 (threshold (muteConfig cfg)) now' st')) = 1"
proof -
  obtain rcd sm st1 where
    r: "registerViolation (keyOf meta) (muteCount fr) (threshold (muteConfig cfg)) now st = (rcd, sm, st1)"
    by (cases "registerViolation (keyOf meta) (muteCount fr) (threshold (muteConfig cfg)) now st") auto
  with shouldMute_iff[OF r] assms(3) have r': "registerViolation (keyOf meta) (muteCount fr) (threshold (muteConfig cfg)) now st = (rcd, True, st1)"
    by simp
  have "moderate up env now cfg meta message fr st = muteBranch env cfg meta message fr rcd st1"
    by (rule moderate_mute[OF assms(1,2) r'])
  with assms(4,5,6) have st': "st' = clearViolation rcd (keyOf meta) st1"
    by (simp add: muteBranch_def Let_def)
  have c: "violationRecords st' (keyOf meta) = None" "timers st' (timer rcd) = None"
      "countOf st' (keyOf meta) = 0"
    using clearViolation_result[of rcd "keyOf meta" st1] st' by simp_all
  obtain rcd2 sm2 st2 where
    r2: "registerViolation (keyOf meta) 1 (threshold (muteConfig cfg)) now' st' = (rcd2, sm2, st2)"
    by (cases "registerViolation (keyOf meta) 1 (threshold (muteConfig cfg)) now' st'") auto
  from registerViolation_result[OF r2] c(3) have "count rcd2 = 1" by simp
  with c r' r2 show ?thesis by simp
qed

text \<open>
  Claim C6. The record is not removed whenever the threshold is reached. When the mute
  call or the notice that follows it fails, the exception leaves the \<open>try\<close> block before
  lines 200-201: the mute call has been made (and, when it is the notice that failed,
  the user is muted), the state the handler leaves is the state after the registration,
  the record is kept with its count, the timer set for a new record stays pending, and
  the next qualifying violation is registered with one more than that count, not with 1.
\<close>

theorem C6_record_kept_when_call_fails:
  assumes "muteEnable (muteConfig cfg)" "hasTriggerMuteRule fr"
    and "threshold (muteConfig cfg) \<le> countOf st (keyOf meta) + muteCount fr"
    and "\<not> (setGroupBanOk env \<and> sendGroupMsgOk env)"
    and "moderate up env now cfg meta message fr st = (effects, st')"
  shows "SetGroupBan (guildId meta) (userId meta) (duration (muteConfig cfg)) \<in> set effects
         \<and> st' = snd (snd (registerViolation (keyOf meta) (muteCount fr) (threshold (muteConfig cfg)) now st))
         \<and> violationRecords st' (keyOf meta)
             = Some (fst (registerViolation (keyOf meta) (muteCount fr) (threshold (muteConfig cfg)) now st))
         \<and> countOf st' (keyOf meta) = countOf st (keyOf meta) + muteCount fr
         \<and> (violationRecords st (keyOf meta) = None \<longrightarrow>
              timers st' (nextTimer st) = Some (keyOf meta, now + 24 * 3600 * 1000))
         \<and> count (fst (registerViolation (keyOf meta) 1 (threshold (muteConfig cfg)) now' st'))
             = countOf st (keyOf meta) + muteCount fr + 1"
proof -
  obtain rcd sm st1 where
    r: "registerViolation (keyOf meta) (muteCount fr) (threshold (muteConfig cfg)) now st = (rcd, sm, st1)"
    by (cases "registerViolation (keyOf meta) (muteCount fr) (threshold (muteConfig cfg)) now st") auto
  with shouldMute_iff[OF r] assms(3) have r': "registerViolation (keyOf meta) (muteCount fr) (threshold (muteConfig cfg)) now st = (rcd, True, st1)"
    by simp
  have m: "moderate up env now cfg meta message fr st = muteBranch env cfg meta message fr rcd st1"
    by (rule moderate_mute[OF assms(1,2) r'])
  from m assms(4,5) have st': "st' = st1"
    by (auto simp: muteBranch_def Let_def split: if_splits)
  from m assms(4,5)
  have ban: "SetGroupBan (guildId meta) (userId meta) (duration (muteConfig cfg)) \<in> set effects"
    by (auto simp: muteBranch_def Let_def split: if_splits)
  note res = registerViolation_result[OF r']
  have cnt: "countOf st1 (keyOf meta) = countOf st (keyOf meta) + muteCount fr"
    using res by (simp add: countOf_def)
  have pending: "timers st1 (nextTimer st) = Some (keyOf meta, now + 24 * 3600 * 1000)"
    if "violationRecords st (keyOf meta) = None"
    using registerViolation_fresh[OF r' that] by metis
  obtain rcd2 sm2 st2 where
    r2: "registerViolation (keyOf meta) 1 (threshold (muteConfig cfg)) now' st1 = (rcd2, sm2, st2)"
    by (cases "registerViolation (keyOf meta) 1 (threshold (muteConfig cfg)) now' st1") auto
  from registerViolation_result[OF r2] cnt
  have "count rcd2 = countOf st (keyOf meta) + muteCount fr + 1" by simp
  then have nxt: "count (fst (registerViolation (keyOf meta) 1 (threshold (muteConfig cfg)) now' st1))
                    = countOf st (keyOf meta) + muteCount fr + 1"
    by (simp only: r2 fst_conv)
  show ?thesis
    unfolding st' using ban res cnt pending nxt by (simp add: r')
qed

text \<open>
  With a threshold of 1 and a user without a record: the mute call succeeds and the notice
  cannot be sent. The user is muted, the record stays with count 1, its timer stays
  pending, and the next violation is counted as the second one.
\<close>

theorem C6_record_kept_when_call_fails_witness:
  "setGroupBanOk (outcomes True False) \<and> \<not> sendGroupMsgOk (outcomes True False)
   \<and> SetGroupBan (asc ''10000'') (asc ''42'') 600
       \<in> set (fst (moderate noCaseTable (outcomes True False) 0 (sampleConfig 1 (asc ''Warning!''))
                      (sampleMeta (asc ''foo bar'')) (asc ''foo bar'') sampleResult emptyTracker))
   \<and> violationRecords
       (snd (moderate noCaseTable (outcomes True False) 0 (sampleConfig 1 (asc ''Warning!''))
               (sampleMeta (asc ''foo bar'')) (asc ''foo bar'') sampleResult emptyTracker))
       (asc ''10000:42'') = Some \<lparr>count = 1, timer = 0\<rparr>
   \<and> timers
       (snd (moderate noCaseTable (outcomes True False) 0 (sampleConfig 1 (asc ''Warning!''))
               (sampleMeta (asc ''foo bar'')) (asc ''foo bar'') sampleResult emptyTracker))
       0 = Some (asc ''10000:42'', 86400000)
   \<and> count (fst (registerViolation (asc ''10000:42'') 1 1 5
        (snd (moderate noCaseTable (outcomes True False) 0 (sampleConfig 1 (asc ''Warning!''))
                (sampleMeta (asc ''foo bar'')) (asc ''foo bar'') sampleResult emptyTracker)))) = 2"
  using C6_record_kept_when_call_fails [where cfg = "sampleConfig 1 (asc ''Warning!'')"
      and fr = sampleResult and st = emptyTracker and meta = "sampleMeta (asc ''foo bar'')"
      and env = "outcomes True False" and up = noCaseTable and now = 0 and now' = 5
      and message = "asc ''foo bar''", OF _ _ _ _ prod.collapse [symmetric]]
  by (simp add: sampleConfig_def sampleResult_def sampleMeta_def outcomes_def countOf_def
      emptyTracker_def registerViolation_def Let_def asc_def)

text \<open>
  The same at a threshold of 3, for a user with two violations on record, and when it is
  the mute call that fails: the record stays with count 3.
\<close>

lemma record_kept_examples:
  "countOf
     (snd (moderate noCaseTable (outcomes True False) 7 (sampleConfig 3 (asc ''Warning!''))
             (sampleMeta (asc ''foo bar'')) (asc ''foo bar'') sampleResult
             (registerAll (asc ''10000:42'') 3 [0, 1] emptyTracker)))
     (asc ''10000:42'') = 3
   \<and> countOf
     (snd (moderate noCaseTable (outcomes False True) 7 (sampleConfig 3 (asc ''Warning!''))
             (sampleMeta (asc ''foo bar'')) (asc ''foo bar'') sampleResult
             (registerAll (asc ''10000:42'') 3 [0, 1] emptyTracker)))
     (asc ''10000:42'') = 3
   \<and> countOf
     (snd (moderate noCaseTable (outcomes True True) 7 (sampleConfig 3 (asc ''Warning!''))
             (sampleMeta (asc ''foo bar'')) (asc ''foo bar'') sampleResult
             (registerAll (asc ''10000:42'') 3 [0, 1] emptyTracker)))
     (asc ''10000:42'') = 0"
  by (simp add: moderate_def registerViolation_def registerAll_def muteBranch_def
      clearViolation_def countOf_def Let_def sampleConfig_def sampleResult_def sampleMeta_def
      outcomes_def emptyTracker_def asc_def)

section \<open>Length of the texts sent\<close>

lemma alert_truncated:
  "SendGroupMsg g text \<in> set (alertBranch up env cfg meta message fr st) \<Longrightarrow> length text \<le> 4500"
  by (auto simp: alertBranch_def Let_def recallMessage_def split: option.splits if_splits)

text \<open>
  Claim C4. The alert branch cuts the corrected text to 2000 code units and the whole
  text to 4500 (lines 229 and 241). The mute branch (lines 190-198) does neither: the
  notice it sends contains the alert text in full and, when the text was rewritten, the
  correction prefix and the corrected text in full, so it is longer than these together,
  whatever their length.
\<close>

theorem C4_mute_notice_not_truncated:
  assumes "muteEnable (muteConfig cfg)" "hasTriggerMuteRule fr"
    and "threshold (muteConfig cfg) \<le> countOf st (keyOf meta) + muteCount fr"
    and "setGroupBanOk env"
  shows "SendGroupMsg (guildId meta)
           (muteNotice cfg meta message fr
              (fst (registerViolation (keyOf meta) (muteCount fr) (threshold (muteConfig cfg)) now st)))
           \<in> set (fst (moderate up env now cfg meta message fr st))
         \<and> length (alertContent cfg)
             + (if hasValidReplace fr \<and> modifiedMessage fr \<noteq> message
                then length (correctPrefix cfg) + length (modifiedMessage fr) else 0)
             < length (muteNotice cfg meta message fr
                  (fst (registerViolation (keyOf meta) (muteCount fr) (threshold (muteConfig cfg)) now st)))"
proof -
  obtain rcd sm st1 where
    r: "registerViolation (keyOf meta) (muteCount fr) (threshold (muteConfig cfg)) now st = (rcd, sm, st1)"
    by (cases "registerViolation (keyOf meta) (muteCount fr) (threshold (muteConfig cfg)) now st") auto
  with shouldMute_iff[OF r] assms(3) have r': "registerViolation (keyOf meta) (muteCount fr) (threshold (muteConfig cfg)) now st = (rcd, True, st1)"
    by simp
  have m: "moderate up env now cfg meta message fr st = muteBranch env cfg meta message fr rcd st1"
    by (rule moderate_mute[OF assms(1,2) r'])
  have "SendGroupMsg (guildId meta) (muteNotice cfg meta message fr rcd)
          \<in> set (fst (muteBranch env cfg meta message fr rcd st1))"
    using assms(4) by (simp add: muteBranch_def Let_def)
  moreover have "length (alertContent cfg)
             + (if hasValidReplace fr \<and> modifiedMessage fr \<noteq> message
                then length (correctPrefix cfg) + length (modifiedMessage fr) else 0)
             < length (muteNotice cfg meta message fr rcd)"
    by (simp add: muteNotice_def Let_def mention_def asc_def)
  ultimately show ?thesis using m r' by simp
qed

text \<open>With an alert text of 4600 code units the notice sent is longer than 4500.\<close>

theorem C4_mute_notice_not_truncated_witness:
  "SendGroupMsg (asc ''10000'')
     (muteNotice (sampleConfig 1 (replicate 4600 97)) (sampleMeta (asc ''foo bar'')) (asc ''foo bar'')
        sampleResult \<lparr>count = 1, timer = 0\<rparr>)
     \<in> set (fst (moderate noCaseTable (outcomes True True) 0 (sampleConfig 1 (replicate 4600 97))
                     (sampleMeta (asc ''foo bar'')) (asc ''foo bar'') sampleResult emptyTracker))
   \<and> 4500 < length (muteNotice (sampleConfig 1 (replicate 4600 97)) (sampleMeta (asc ''foo bar''))
                       (asc ''foo bar'') sampleResult \<lparr>count = 1, timer = 0\<rparr>)"
proof -
  let ?cfg = "sampleConfig 1 (replicate 4600 97)"
  let ?meta = "sampleMeta (asc ''foo bar'')"
  have h1: "muteEnable (muteConfig ?cfg)" by (simp add: sampleConfig_def)
  have h2: "hasTriggerMuteRule sampleResult" by (simp add: sampleResult_def)
  have h3: "threshold (muteConfig ?cfg) \<le> countOf emptyTracker (keyOf ?meta) + muteCount sampleResult"
    by (simp add: sampleConfig_def sampleResult_def)
  have h4: "setGroupBanOk (outcomes True True)" by (simp add: outcomes_def)
  have r: "fst (registerViolation (keyOf ?meta) (muteCount sampleResult)
                 (threshold (muteConfig ?cfg)) 0 emptyTracker)
             = \<lparr>count = 1, timer = 0\<rparr>"
    by (simp add: registerViolation_def Let_def emptyTracker_def sampleResult_def)
  have g: "guildId ?meta = asc ''10000''"
    by (simp add: sampleMeta_def)
  have l: "length (alertContent ?cfg) = 4600"
    by (simp add: sampleConfig_def)
  from C4_mute_notice_not_truncated [OF h1 h2 h3 h4, where up = noCaseTable and now = 0
      and message = "asc ''foo bar''"]
  show ?thesis
    by (simp only: r) (simp only: g l, simp add: sampleResult_def sampleConfig_def asc_def)
qed

section \<open>Properties of the duration text\<close>

text \<open>
  Below \<open>2^53\<close> the rounding of the quotient never reaches the next integer: the floor and
  the ceiling of the double quotient are those of the real quotient.
\<close>

lemma bits_bounds: "0 < n \<Longrightarrow> 2 ^ (bits n - 1) \<le> n \<and> n < 2 ^ bits n"
proof (induction n rule: bits.induct)
  case (1 n)
  show ?case
  proof (cases "n div 2 = 0")
    case True
    with 1(2) have "n = 1" by (simp add: div_eq_0_iff) 
    then show ?thesis by (simp add: bits.simps)
  next
    case False
    then have pos: "0 < n div 2" by simp
    from 1(2) have ne: "n \<noteq> 0" by simp
    from 1(1)[OF ne pos] have ih: "2 ^ (bits (n div 2) - 1) \<le> n div 2" "n div 2 < 2 ^ bits (n div 2)"
      by simp_all
    have b: "bits n = Suc (bits (n div 2))" using ne by (subst bits.simps) simp
    have bp: "0 < bits (n div 2)" using pos by (subst bits.simps) simp
    then have e: "bits n - 1 = Suc (bits (n div 2) - 1)" using b by simp
    have "2 ^ (bits n - 1) = 2 * 2 ^ (bits (n div 2) - 1)" unfolding e by simp
    also have "\<dots> \<le> 2 * (n div 2)" using ih(1) by simp
    also have "\<dots> \<le> n" by simp
    finally have lo: "2 ^ (bits n - 1) \<le> n" .
    have "n < 2 * (n div 2) + 2" by presburger
    also have "\<dots> \<le> 2 * 2 ^ bits (n div 2)" using ih(2) by simp
    finally have "n < 2 ^ bits n" unfolding b by simp
    with lo show ?thesis by simp
  qed
qed

lemma scaling_lower:
  assumes "0 < n" "0 < d" "scaling n d = (a, b)"
  shows "2 ^ 52 * (d * 2 ^ b) \<le> n * 2 ^ a"
proof -
  let ?a = "53 + bits d - bits n" and ?b = "bits n - (53 + bits d)"
  note bn = bits_bounds[OF assms(1)] and bd = bits_bounds[OF assms(2)]
  have bnp: "0 < bits n" using assms(1) by (subst bits.simps) simp
  have base: "2 ^ 52 * (d * 2 ^ ?b) \<le> n * 2 ^ ?a"
  proof (cases "bits n \<le> 53 + bits d")
    case True
    then have b0: "?b = 0" by simp
    have e: "(bits n - 1) + ?a = 52 + bits d" using True bnp by simp
    have "(2::nat) ^ 52 * d \<le> 2 ^ 52 * 2 ^ bits d" using bd by simp
    also have "\<dots> = 2 ^ (bits n - 1) * 2 ^ ?a"
      by (simp only: power_add[symmetric] e)
    also have "\<dots> \<le> n * 2 ^ ?a" using bn by simp
    finally show ?thesis by (simp add: b0)
  next
    case False
    then have a0: "?a = 0" by simp
    have e: "52 + (bits d + ?b) = bits n - 1" using False by simp
    have "(2::nat) ^ 52 * (d * 2 ^ ?b) \<le> 2 ^ 52 * (2 ^ bits d * 2 ^ ?b)"
      using bd by simp
    also have "\<dots> = 2 ^ (bits n - 1)"
      by (simp only: power_add[symmetric] e)
    also have "\<dots> \<le> n" using bn by simp
    finally show ?thesis by (simp add: a0)
  qed
  show ?thesis
  proof (cases "d * 2 ^ ?b * 2 ^ 53 \<le> n * 2 ^ ?a")
    case True
    with assms(3) have "a = ?a" "b = Suc ?b" by (simp_all add: scaling_def Let_def)
    with True show ?thesis by (simp add: mult.commute mult.left_commute)
  next
    case False
    with assms(3) have "a = ?a" "b = ?b" by (simp_all add: scaling_def Let_def)
    with base show ?thesis by simp
  qed
qed

lemma round_scale:
  "0 < c \<Longrightarrow> roundTiesToEven (c * x) (c * y) = roundTiesToEven x y"
  by (simp add: roundTiesToEven_def Let_def mult_mod_right[symmetric])

lemma round_ge: "0 < den \<Longrightarrow> K * den \<le> num \<Longrightarrow> K \<le> roundTiesToEven num den"
proof -
  assume d: "0 < den" and k: "K * den \<le> num"
  then have "K \<le> num div den" by (simp add: less_eq_div_iff_mult_less_eq)
  then show ?thesis by (simp add: roundTiesToEven_def Let_def)
qed

lemma round_le: "0 < den \<Longrightarrow> num \<le> K * den \<Longrightarrow> roundTiesToEven num den \<le> K"
proof -
  assume d: "0 < den" and k: "num \<le> K * den"
  show ?thesis
  proof (cases "num = K * den")
    case True
    with d show ?thesis by (simp add: roundTiesToEven_def Let_def)
  next
    case False
    with k have "num < K * den" by simp
    then have "num div den < K" using d by (simp add: div_less_iff_less_mult)
    then show ?thesis by (simp add: roundTiesToEven_def Let_def)
  qed
qed

lemma quotient_form:
  assumes "0 < n" "n < 2 ^ 53" "0 < d"
  shows "\<exists>P. 0 < P \<and> d < 2 * P
            \<and> doubleQuotient n d = real (roundTiesToEven (n * P) d) / real P"
proof -
  obtain a b where s: "scaling n d = (a, b)" by (cases "scaling n d")
  define c :: nat where "c = 2 ^ 52"
  have cpos: "0 < c" by (simp add: c_def)
  have n2: "n < 2 * c" using assms(2) by (simp add: c_def)
  from scaling_lower[OF assms(1,3) s] have lo: "c * (d * 2 ^ b) \<le> n * 2 ^ a"
    by (simp only: c_def)
  have "n * 2 ^ a < (2 * c) * 2 ^ a" using n2 by simp
  also have "\<dots> = c * (2 * 2 ^ a)" by simp
  finally have "n * 2 ^ a < c * (2 * 2 ^ a)" .
  with lo have "c * (d * 2 ^ b) < c * (2 * 2 ^ a)" by (rule le_less_trans)
  then have lt: "d * 2 ^ b < 2 * 2 ^ a" using cpos by simp
  have "(2::nat) ^ b \<le> d * 2 ^ b" using assms(3) by simp
  from this lt have "(2::nat) ^ b < 2 * 2 ^ a" by (rule le_less_trans)
  then have "(2::nat) ^ b < 2 ^ Suc a" by simp
  then have "b < Suc a" by (rule power_less_imp_less_exp[rotated]) simp
  then have ba: "b \<le> a" by simp
  define P :: nat where "P = 2 ^ (a - b)"
  have pa: "(2::nat) ^ a = 2 ^ b * P"
    unfolding P_def using ba by (simp add: power_add[symmetric])
  have pos: "0 < P" by (simp add: P_def)
  from lt have "2 ^ b * d < 2 ^ b * (2 * P)" by (simp add: pa ac_simps)
  then have dp: "d < 2 * P" by simp
  have e: "n * 2 ^ a = 2 ^ b * (n * P)" "d * 2 ^ b = 2 ^ b * d"
    by (simp_all add: pa ac_simps)
  have r: "roundTiesToEven (n * 2 ^ a) (d * 2 ^ b) = roundTiesToEven (n * P) d"
    unfolding e by (rule round_scale) simp
  have "doubleQuotient n d = real (roundTiesToEven (n * 2 ^ a) (d * 2 ^ b)) * 2 ^ b / 2 ^ a"
    using assms(1) by (simp add: doubleQuotient_def s)
  also have "\<dots> = real (roundTiesToEven (n * P) d) / real P"
  proof -
    have "real (2 ^ a) = real (2 ^ b * P)" by (simp only: pa)
    then have "(2::real) ^ a = 2 ^ b * real P" by simp
    then show ?thesis unfolding r by simp
  qed
  finally show ?thesis using pos dp by blast
qed

lemma round_floor:
  assumes "0 < d" "0 < P" "d < 2 * P"
  shows "(n div d) * P \<le> roundTiesToEven (n * P) d
         \<and> roundTiesToEven (n * P) d < (n div d + 1) * P"
proof -
  let ?k = "n div d" and ?R = "roundTiesToEven (n * P) d"
  let ?q = "(n * P) div d" and ?r = "(n * P) mod d"
  have "?k * d \<le> n" by simp
  then have "(?k * d) * P \<le> n * P" by (rule mult_le_mono1)
  then have "(?k * P) * d \<le> n * P" by (simp add: ac_simps)
  from round_ge[OF assms(1) this] have lo: "?k * P \<le> ?R" .
  let ?K = "(?k + 1) * P"
  have "n = ?k * d + n mod d" by simp
  moreover have "n mod d < d" using assms(1) by simp
  ultimately have "n + 1 \<le> ?k * d + d" by linarith
  then have "(n + 1) * P \<le> (?k * d + d) * P" by (rule mult_le_mono1)
  then have np: "n * P + P \<le> ?K * d" by (simp add: ac_simps add_mult_distrib add_mult_distrib2)
  have up: "?R < ?K"
  proof (rule ccontr)
    assume "\<not> ?R < ?K"
    then have ge: "?K \<le> ?R" by simp
    from np assms(2) have "n * P < ?K * d" by linarith
    then have q: "?q < ?K" using assms(1) by (simp add: div_less_iff_less_mult)
    have "?R \<le> ?q + 1" by (simp add: roundTiesToEven_def Let_def)
    with ge q have qk: "?K = ?q + 1" and rq: "?R = ?q + 1" by linarith+
    from rq have half: "d \<le> 2 * ?r"
      by (auto simp: roundTiesToEven_def Let_def split: if_splits)
    have dm: "n * P = ?q * d + ?r" by simp
    have "?K * d = ?q * d + d" unfolding qk by (simp add: add_mult_distrib)
    with np dm have "?r + P \<le> d" by linarith
    with half assms(3) show False by linarith
  qed
  from lo up show ?thesis by simp
qed

lemma round_ceiling:
  assumes "0 < d" "0 < P" "d < 2 * P" "0 < n"
  shows "((n + d - 1) div d - 1) * P < roundTiesToEven (n * P) d
         \<and> roundTiesToEven (n * P) d \<le> ((n + d - 1) div d) * P"
proof -
  let ?k = "(n + d - 1) div d" and ?R = "roundTiesToEven (n * P) d"
  let ?q = "(n * P) div d" and ?r = "(n * P) mod d"
  have e: "n + d - 1 = ?k * d + (n + d - 1) mod d" by simp
  have m: "(n + d - 1) mod d < d" using assms(1) by simp
  from e m assms(1,4) have kd1: "n \<le> ?k * d" by linarith
  have k: "0 < ?k" using assms(1,4) by (simp add: div_greater_zero_iff)
  then have "?k = (?k - 1) + 1" by simp
  then have "?k * d = (?k - 1) * d + d" by (metis add_mult_distrib nat_mult_1)
  with e m assms(1,4) have kd2: "(?k - 1) * d + 1 \<le> n" by linarith
  from kd1 have "n * P \<le> (?k * d) * P" by (rule mult_le_mono1)
  then have "n * P \<le> (?k * P) * d" by (simp add: ac_simps)
  from round_le[OF assms(1) this] have up: "?R \<le> ?k * P" .
  let ?K = "(?k - 1) * P"
  from kd2 have "((?k - 1) * d + 1) * P \<le> n * P" by (rule mult_le_mono1)
  then have np: "?K * d + P \<le> n * P" by (simp add: ac_simps add_mult_distrib)
  have lo: "?K < ?R"
  proof (rule ccontr)
    assume "\<not> ?K < ?R"
    then have le: "?R \<le> ?K" by simp
    from np have "?K * d \<le> n * P" by linarith
    then have q: "?K \<le> ?q" using assms(1) by (simp add: less_eq_div_iff_mult_less_eq)
    have "?q \<le> ?R" by (simp add: roundTiesToEven_def Let_def)
    with le q have qk: "?K = ?q" and rq: "?R = ?q" by linarith+
    from rq have half: "2 * ?r \<le> d"
      by (auto simp: roundTiesToEven_def Let_def split: if_splits)
    have dm: "n * P = ?q * d + ?r" by simp
    from np dm have "P \<le> ?r" unfolding qk by linarith
    with half assms(3) show False by linarith
  qed
  from lo up show ?thesis by simp
qed


lemma floor_quotient:
  assumes "n < 2 ^ 53" "0 < d"
  shows "nat \<lfloor>doubleQuotient n d\<rfloor> = n div d"
proof (cases "n = 0")
  case True
  then show ?thesis by (simp add: doubleQuotient_def)
next
  case False
  then have "0 < n" by simp
  from quotient_form[OF this assms] obtain P where
    P: "0 < P" "d < 2 * P" "doubleQuotient n d = real (roundTiesToEven (n * P) d) / real P"
    by blast
  let ?R = "roundTiesToEven (n * P) d"
  note b = round_floor[OF assms(2) P(1,2), of n]
  have lo: "real (n div d) \<le> real ?R / real P"
    using b P(1) by (simp add: pos_le_divide_eq flip: of_nat_mult)
  from b have "?R < (n div d + 1) * P" by simp
  then have "real ?R < real ((n div d + 1) * P)" by (rule of_nat_less_iff[THEN iffD2])
  also have "\<dots> = (real (n div d) + 1) * real P" by (simp add: algebra_simps)
  finally have up: "real ?R / real P < real (n div d) + 1"
    using P(1) by (simp add: pos_divide_less_eq)
  have "\<lfloor>real ?R / real P\<rfloor> = int (n div d)"
    using lo up by (intro floor_unique) simp_all
  then show ?thesis by (simp add: P(3))
qed

lemma ceiling_quotient:
  assumes "n < 2 ^ 53" "0 < d"
  shows "nat \<lceil>doubleQuotient n d\<rceil> = (n + d - 1) div d"
proof (cases "n = 0")
  case True
  then show ?thesis using assms(2) by (simp add: doubleQuotient_def)
next
  case False
  then have n: "0 < n" by simp
  from quotient_form[OF this assms] obtain P where
    P: "0 < P" "d < 2 * P" "doubleQuotient n d = real (roundTiesToEven (n * P) d) / real P"
    by blast
  let ?k = "(n + d - 1) div d" and ?R = "roundTiesToEven (n * P) d"
  note b = round_ceiling[OF assms(2) P(1,2) n]
  have k: "0 < ?k" using assms(2) n by (simp add: div_greater_zero_iff)
  from b have "(?k - 1) * P < ?R" by simp
  then have "real ((?k - 1) * P) < real ?R" by (rule of_nat_less_iff[THEN iffD2])
  also have "real ((?k - 1) * P) = real (?k - 1) * real P" by simp
  finally have lo: "real (?k - 1) < real ?R / real P"
    using P(1) by (simp add: pos_less_divide_eq)
  have up: "real ?R / real P \<le> real ?k"
    using b P(1) by (simp add: pos_divide_le_eq flip: of_nat_mult)
  have "\<lceil>real ?R / real P\<rceil> = int ?k"
    using lo up k by (intro ceiling_unique) (simp_all add: of_nat_diff)
  then show ?thesis by (simp add: P(3))
qed

lemma hours_div: "t < 2 ^ 53 \<Longrightarrow> hours t = t div 3600"
  unfolding hours_def by (rule floor_quotient) simp_all

lemma minutes_div: "minutes t = (t mod 3600 + 59) div 60"
proof -
  have "t mod 3600 < 3600" by simp
  also have "(3600::nat) < 2 ^ 53" by simp
  finally have "nat \<lceil>doubleQuotient (t mod 3600) 60\<rceil> = (t mod 3600 + 60 - 1) div 60"
    by (intro ceiling_quotient) simp_all
  then show ?thesis by (simp add: minutes_def)
qed

lemma showNat_nonempty: "showNat n \<noteq> []"
  by (subst showNat.simps) simp

text \<open>
  From \<open>2^53\<close> on the double quotient can reach the next integer: 288230376151717184
  seconds is a double, and its count of hours is one more than the integer quotient.
\<close>

lemma bits_numeral:
  "bits 0 = 0"
  "bits (numeral k) = Suc (bits (numeral k div 2))"
  by (simp_all add: bits.simps)

lemma hours_rounded_up:
  "hours 288230376151717184 = 80063993375477
   \<and> (288230376151717184::nat) div 3600 = 80063993375476"
  by (simp add: hours_def doubleQuotient_def scaling_def roundTiesToEven_def Let_def bits_numeral)

text \<open>
  Claim C5, as amended. For a duration below \<open>2^53\<close> seconds the hour count is the floor
  of seconds/3600 and the minute count is the ceiling of (seconds mod 3600)/60, both as
  integer arithmetic; the text is the hour count followed by U+5C0F U+65F6 and the minute
  count followed by U+5206 U+949F, a unit whose count is zero being left out; it is
  empty exactly when both counts are zero. For 3661 seconds the text is 1 with the hour
  unit and 2 with the minute unit (the 61 remaining seconds round up to 2 minutes); for
  60 seconds it is 1 with the minute unit only.
\<close>

theorem C5_duration_format:
  assumes "t < 2 ^ 53"
  shows "hours t = t div 3600
   \<and> minutes t = (t mod 3600 + 59) div 60
   \<and> durationText t =
       (if t div 3600 = 0 then [] else showNat (t div 3600) @ [0x5C0F, 0x65F6])
       @ (if (t mod 3600 + 59) div 60 = 0 then []
          else showNat ((t mod 3600 + 59) div 60) @ [0x5206, 0x949F])
   \<and> ((durationText t = []) = (t div 3600 = 0 \<and> (t mod 3600 + 59) div 60 = 0))
   \<and> durationText 3661 = [49, 0x5C0F, 0x65F6, 50, 0x5206, 0x949F]
   \<and> durationText 60 = [49, 0x5206, 0x949F]"
proof -
  note h = hours_div[OF assms]
  have fmt: "durationText t =
       (if t div 3600 = 0 then [] else showNat (t div 3600) @ [0x5C0F, 0x65F6])
       @ (if (t mod 3600 + 59) div 60 = 0 then []
          else showNat ((t mod 3600 + 59) div 60) @ [0x5206, 0x949F])"
    by (simp add: durationText_def Let_def h minutes_div hourUnit_def minuteUnit_def)
  have empty: "(durationText t = []) = (t div 3600 = 0 \<and> (t mod 3600 + 59) div 60 = 0)"
    unfolding fmt by (simp add: showNat_nonempty)
  have e1: "durationText 3661 = [49, 0x5C0F, 0x65F6, 50, 0x5206, 0x949F]"
    by (simp add: durationText_def Let_def hours_div minutes_div showNat.simps
        hourUnit_def minuteUnit_def)
  have e2: "durationText 60 = [49, 0x5206, 0x949F]"
    by (simp add: durationText_def Let_def hours_div minutes_div showNat.simps
        hourUnit_def minuteUnit_def)
  show ?thesis
    using h minutes_div fmt empty e1 e2 by blast
qed

text \<open>
  Two hours, no duration, and one second short of a day: 23 hours and 60 minutes.
\<close>

theorem C5_duration_format_witness:
  "(7200::nat) < 2 ^ 53 \<and> durationText 7200 = [50, 0x5C0F, 0x65F6]
   \<and> (0::nat) < 2 ^ 53 \<and> durationText 0 = []
   \<and> (86399::nat) < 2 ^ 53
   \<and> durationText 86399 = [50, 51, 0x5C0F, 0x65F6, 54, 48, 0x5206, 0x949F]"
  using C5_duration_format [of 7200] C5_duration_format [of 0] C5_duration_format [of 86399]
  by (simp add: showNat.simps)

text \<open>
  The claim as it was stated gives one minute for 3661 seconds (one hour, and a minute
  for the remainder). The remainder is 61 seconds, and the text says 2 minutes.
\<close>

theorem C5_counterexample:
  "durationText 3661 \<noteq> [49, 0x5C0F, 0x65F6, 49, 0x5206, 0x949F]"
  by (simp add: durationText_def Let_def hours_div minutes_div showNat.simps
      hourUnit_def minuteUnit_def)

end
